theory Spec2Isabelle
  imports Complex_Main "HOL-Library.Product_Lexorder"
begin

section \<open>Intruder Escape: the grid, the path search and the game state\<close>

text \<open>
  The development follows \<^verbatim>\<open>intruder_escape.py\<close>.  A cell is a Python tuple
  \<^verbatim>\<open>(row, col)\<close> of unbounded integers.  The outcome of a Python call is modelled as
  \<open>(py_error + 'a) option\<close>: \<open>None\<close> is a call that never returns, \<open>Some (Inl e)\<close> a
  raised exception and \<open>Some (Inr v)\<close> a returned value.  Calls without a loop that may run
  forever return \<open>py_error + 'a\<close> directly.
\<close>

type_synonym cell = "int \<times> int"

datatype py_error = IndexError | KeyError | TypeError | AttributeError

subsection \<open>Constants of \<^verbatim>\<open>GridMaze.__init__\<close>\<close>

definition GRID_SIZE :: int where
  "GRID_SIZE = 15"

definition CELL_SIZE :: int where
  "CELL_SIZE = 40"

definition PADDING :: int where
  "PADDING = 20"

definition BUTTON_HEIGHT :: int where
  "BUTTON_HEIGHT = 40"

definition ROBOT_SPEED_INCREASE_STEPS :: int where
  "ROBOT_SPEED_INCREASE_STEPS = 100"

subsection \<open>The grid: a list of rows\<close>

text \<open>
  \<^verbatim>\<open>xs[i]\<close> on a Python list: a negative index counts from the end, an index out of
  range raises \<^verbatim>\<open>IndexError\<close>.
\<close>

definition py_index :: "'a list \<Rightarrow> int \<Rightarrow> py_error + 'a" where
  "py_index xs i =
     (if 0 \<le> i \<and> i < int (length xs) then Inr (xs ! nat i)
      else if i < 0 \<and> - int (length xs) \<le> i then Inr (xs ! nat (int (length xs) + i))
      else Inl IndexError)"

text \<open>\<^verbatim>\<open>self.grid[row][col]\<close>\<close>

definition grid_at :: "int list list \<Rightarrow> cell \<Rightarrow> py_error + int" where
  "grid_at gr c =
     (case py_index gr (fst c) of
        Inl e \<Rightarrow> Inl e
      | Inr row \<Rightarrow> py_index row (snd c))"

text \<open>\<^verbatim>\<open>0 <= row < self.GRID_SIZE and 0 <= col < self.GRID_SIZE\<close>\<close>

definition in_bounds :: "cell \<Rightarrow> bool" where
  "in_bounds c \<longleftrightarrow> 0 \<le> fst c \<and> fst c < GRID_SIZE \<and> 0 \<le> snd c \<and> snd c < GRID_SIZE"

text \<open>The shape every layout operation of the program gives the grid: 15 rows of 15 cells.\<close>

definition wf_grid :: "int list list \<Rightarrow> bool" where
  "wf_grid gr \<longleftrightarrow>
     int (length gr) = GRID_SIZE \<and>
     list_all (\<lambda>row. int (length row) = GRID_SIZE \<and> list_all (\<lambda>v. v = 0 \<or> v = 1) row) gr"

text \<open>A free cell holds 0, an obstacle cell holds 1.\<close>

definition free_cell :: "int list list \<Rightarrow> cell \<Rightarrow> bool" where
  "free_cell gr c \<longleftrightarrow> in_bounds c \<and> grid_at gr c = Inr 0"

definition obstacle_cell :: "int list list \<Rightarrow> cell \<Rightarrow> bool" where
  "obstacle_cell gr c \<longleftrightarrow> in_bounds c \<and> grid_at gr c = Inr 1"

subsection \<open>Paths on the grid\<close>

text \<open>
  Two cells are 4-adjacent when they differ by one of the four moves.  A walk is a
  non-empty list of cells in which every cell after the first is a free in-bounds cell
  4-adjacent to the one before it; nothing is asked of the first cell.
\<close>

definition adjacent :: "cell \<Rightarrow> cell \<Rightarrow> bool" where
  "adjacent a b \<longleftrightarrow> \<bar>fst a - fst b\<bar> + \<bar>snd a - snd b\<bar> = 1"

fun walk :: "int list list \<Rightarrow> cell list \<Rightarrow> bool" where
  "walk gr [] = False"
| "walk gr [c] = True"
| "walk gr (a # b # rest) = (adjacent a b \<and> free_cell gr b \<and> walk gr (b # rest))"

definition path_between :: "int list list \<Rightarrow> cell \<Rightarrow> cell \<Rightarrow> cell list \<Rightarrow> bool" where
  "path_between gr start goal p \<longleftrightarrow> p \<noteq> [] \<and> hd p = start \<and> last p = goal \<and> walk gr p"

subsection \<open>\<^verbatim>\<open>find_path\<close>: the search state\<close>

definition manhattan_distance :: "cell \<Rightarrow> cell \<Rightarrow> int" where
  "manhattan_distance a b = \<bar>fst a - fst b\<bar> + \<bar>snd a - snd b\<bar>"

record astar =
  open_set :: "(int \<times> cell) list"
  closed_set :: "cell set"
  g_score :: "cell \<rightharpoonup> int"
  f_score :: "cell \<rightharpoonup> int"
  came_from :: "cell \<rightharpoonup> cell"

text \<open>
  \<^verbatim>\<open>heapq\<close> keeps \<^verbatim>\<open>open_set\<close> as a binary heap of tuples \<^verbatim>\<open>(f, (row, col))\<close>;
  \<^verbatim>\<open>heappop\<close> removes and returns its least tuple in Python's tuple order, which is the
  lexicographic order of \<open>int \<times> int \<times> int\<close>.  The program reads the heap in two ways
  only, by \<^verbatim>\<open>heappop\<close> and by the membership scan \<^verbatim>\<open>[item[1] for item in open_set]\<close>,
  and neither depends on the position of an item inside the list, so the heap is modelled as
  the list of its items.
\<close>

definition heappush :: "(int \<times> cell) list \<Rightarrow> int \<times> cell \<Rightarrow> (int \<times> cell) list" where
  "heappush h x = h @ [x]"

definition heap_least :: "(int \<times> cell) list \<Rightarrow> int \<times> cell" where
  "heap_least h = fold min (tl h) (hd h)"

definition heappop :: "(int \<times> cell) list \<Rightarrow> (int \<times> cell) \<times> (int \<times> cell) list" where
  "heappop h = (heap_least h, remove1 (heap_least h) h)"

text \<open>
  The path reconstruction \<^verbatim>\<open>while current in came_from\<close>.  Python appends to
  \<^verbatim>\<open>path\<close> and reverses at the end; here the accumulator is built in reverse, so
  \<open>acc\<close> is the reversed Python list.  The cell the loop stops at is dropped and
  \<^verbatim>\<open>start\<close> is put in its place, as the source does.
\<close>

partial_function (option) reconstruct ::
  "(cell \<rightharpoonup> cell) \<Rightarrow> cell \<Rightarrow> cell \<Rightarrow> cell list \<Rightarrow> cell list option" where
  "reconstruct cf start current acc =
     (case cf current of
        None \<Rightarrow> Some (start # acc)
      | Some prev \<Rightarrow> reconstruct cf start prev (current # acc))"

declare reconstruct.simps [code]

text \<open>One pass of the body of \<^verbatim>\<open>for dx, dy in [(0, 1), (1, 0), (0, -1), (-1, 0)]\<close>.\<close>

definition visit :: "int list list \<Rightarrow> cell \<Rightarrow> cell \<Rightarrow> astar \<Rightarrow> int \<times> int \<Rightarrow> py_error + astar" where
  "visit gr goal current st d =
     (let neighbor = (fst current + fst d, snd current + snd d) in
      if \<not> in_bounds neighbor then Inr st
      else case grid_at gr neighbor of
        Inl e \<Rightarrow> Inl e
      | Inr v \<Rightarrow>
          if v = 1 then Inr st
          else if neighbor \<in> closed_set st then Inr st
          else case g_score st current of
            None \<Rightarrow> Inl KeyError
          | Some gc \<Rightarrow>
              let tentative_g_score = gc + 1 in
              if (case g_score st neighbor of None \<Rightarrow> True | Some gn \<Rightarrow> tentative_g_score < gn)
              then
                let f = tentative_g_score + manhattan_distance neighbor goal;
                    st1 = st\<lparr>came_from := (came_from st)(neighbor := Some current),
                             g_score := (g_score st)(neighbor := Some tentative_g_score),
                             f_score := (f_score st)(neighbor := Some f)\<rparr>
                in if neighbor \<notin> set (map snd (open_set st1))
                   then Inr (st1\<lparr>open_set := heappush (open_set st1) (f, neighbor)\<rparr>)
                   else Inr st1
              else Inr st)"

fun for_neighbors ::
  "int list list \<Rightarrow> cell \<Rightarrow> cell \<Rightarrow> (int \<times> int) list \<Rightarrow> astar \<Rightarrow> py_error + astar" where
  "for_neighbors gr goal current [] st = Inr st"
| "for_neighbors gr goal current (d # ds) st =
     (case visit gr goal current st d of
        Inl e \<Rightarrow> Inl e
      | Inr st' \<Rightarrow> for_neighbors gr goal current ds st')"

definition directions :: "(int \<times> int) list" where
  "directions = [(0, 1), (1, 0), (0, -1), (-1, 0)]"

text \<open>The loop \<^verbatim>\<open>while open_set\<close>.\<close>

partial_function (option) astar_loop ::
  "int list list \<Rightarrow> cell \<Rightarrow> cell \<Rightarrow> astar \<Rightarrow> (py_error + cell list option) option" where
  "astar_loop gr start goal st =
     (if open_set st = [] then Some (Inr None)
      else
        let popped = heappop (open_set st);
            current = snd (fst popped);
            st1 = st\<lparr>open_set := snd popped\<rparr>
        in if current = goal
           then map_option (\<lambda>p. Inr (Some p)) (reconstruct (came_from st1) start current [])
           else case for_neighbors gr goal current directions
                       (st1\<lparr>closed_set := insert current (closed_set st1)\<rparr>) of
                  Inl e \<Rightarrow> Some (Inl e)
                | Inr st' \<Rightarrow> astar_loop gr start goal st')"

declare astar_loop.simps [code]

definition astar_init :: "cell \<Rightarrow> cell \<Rightarrow> astar" where
  "astar_init start goal =
     \<lparr>open_set = heappush [] (manhattan_distance start goal, start),
      closed_set = {},
      g_score = [start \<mapsto> 0],
      f_score = [start \<mapsto> manhattan_distance start goal],
      came_from = Map.empty\<rparr>"

definition find_path :: "int list list \<Rightarrow> cell \<Rightarrow> cell \<Rightarrow> (py_error + cell list option) option" where
  "find_path gr start goal = astar_loop gr start goal (astar_init start goal)"

subsection \<open>The game state\<close>

text \<open>
  \<^verbatim>\<open>robot_speed\<close> is a Python float.  The game logic is written over a type \<open>'f\<close> of
  speeds, and the three float computations of the program are the fields of
  \<open>float_ops\<close>: the constant \<^verbatim>\<open>ROBOT_SPEED_INITIAL\<close>, the update
  \<^verbatim>\<open>robot_speed += ROBOT_SPEED_INCREASE\<close> and the test
  \<^verbatim>\<open>current_time - last_update >= 1000 / robot_speed\<close>.  The instance \<open>binary64_ops\<close>
  below computes them as Python does.
\<close>

record 'f float_ops =
  ROBOT_SPEED_INITIAL :: 'f
  speed_increase :: "'f \<Rightarrow> 'f"
  tick_due :: "int \<Rightarrow> 'f \<Rightarrow> bool"

text \<open>
  What \<^verbatim>\<open>json.load(f)['high_score']\<close> and \<^verbatim>\<open>json.load(f)['scores']\<close> may hand to the
  program.  A JSON number is loaded as a Python int or float (\<^verbatim>\<open>true\<close> and \<^verbatim>\<open>false\<close> as
  the ints 1 and 0); Python compares and sorts ints and floats by their exact values, so a
  number is modelled by its value, a rational.  The program itself only ever stores step
  counts, which are integers.  A high score is a number, or a value that \<^verbatim>\<open>>\<close> cannot
  compare with an integer (a string, \<^verbatim>\<open>null\<close>, a list, an object).  A leaderboard is a list
  of numbers, or a value that is no list (it has no \<^verbatim>\<open>append\<close>), or a list with an entry
  that is no number (it cannot be ordered against the appended step count).  The literals
  \<^verbatim>\<open>NaN\<close> and \<^verbatim>\<open>Infinity\<close>, which are not JSON but which Python's reader accepts, are
  left out.
\<close>

type_synonym json_number = rat

datatype json_score = Number json_number | NotANumber

datatype json_scores = ScoreList "json_number list" | NotAList | UnorderedList

text \<open>
  The fields of \<^verbatim>\<open>GridMaze\<close> that the game logic reads or writes.  \<^verbatim>\<open>robots\<close> is a
  Python dict from cell to robot number; a dict keeps insertion order, so it is an
  association list with distinct keys.  The two JSON files are part of the state:
  \<open>None\<close> is a file that is missing or unreadable or has no such key (the loaders then
  return the default), and \<open>disk_writable\<close> says whether a write succeeds (a failed
  write is swallowed by \<^verbatim>\<open>except: pass\<close>).
\<close>

record 'f game =
  game_status :: string
  game_running :: bool
  steps :: int
  high_score :: json_score
  robot_speed :: 'f
  robot_counter :: int
  last_update :: int
  grid :: "int list list"
  robots :: "(cell \<times> int) list"
  intruder_pos :: "cell option"
  leaderboard :: json_scores
  high_score_file :: "json_score option"
  leaderboard_file :: "json_scores option"
  disk_writable :: bool

subsection \<open>Scores\<close>

definition save_high_score :: "'f game \<Rightarrow> 'f game" where
  "save_high_score st =
     (if disk_writable st then st\<lparr>high_score_file := Some (high_score st)\<rparr> else st)"

text \<open>\<^verbatim>\<open>self.steps > self.high_score\<close> raises when the loaded high score is no number.\<close>

definition update_high_score :: "'f game \<Rightarrow> py_error + 'f game" where
  "update_high_score st =
     (case high_score st of
        NotANumber \<Rightarrow> Inl TypeError
      | Number h \<Rightarrow>
          if of_int (steps st) > h
          then Inr (save_high_score (st\<lparr>high_score := Number (of_int (steps st))\<rparr>))
          else Inr st)"

definition load_leaderboard :: "'f game \<Rightarrow> json_scores" where
  "load_leaderboard st = (case leaderboard_file st of None \<Rightarrow> ScoreList [] | Some v \<Rightarrow> v)"

definition save_leaderboard :: "'f game \<Rightarrow> json_number list \<Rightarrow> 'f game" where
  "save_leaderboard st scores =
     (if disk_writable st then st\<lparr>leaderboard_file := Some (ScoreList scores)\<rparr> else st)"

text \<open>\<^verbatim>\<open>scores.sort(reverse=True)\<close> on a list of numbers.\<close>

definition sort_reverse :: "json_number list \<Rightarrow> json_number list" where
  "sort_reverse xs = rev (sort xs)"

text \<open>
  \<^verbatim>\<open>update_leaderboard\<close> returns the new state (the file) and the list.  On a loaded
  value that is no list \<^verbatim>\<open>scores.append\<close> raises \<^verbatim>\<open>AttributeError\<close>; on a list with an
  entry that cannot be ordered against the appended integer \<^verbatim>\<open>scores.sort\<close> raises
  \<^verbatim>\<open>TypeError\<close>.  Nothing is written in either case.
\<close>

definition update_leaderboard :: "'f game \<Rightarrow> py_error + 'f game \<times> json_number list" where
  "update_leaderboard st =
     (case load_leaderboard st of
        NotAList \<Rightarrow> Inl AttributeError
      | UnorderedList \<Rightarrow> Inl TypeError
      | ScoreList xs \<Rightarrow>
          let scores = take 5 (sort_reverse (xs @ [of_int (steps st)]))
          in Inr (save_leaderboard st scores, scores))"

text \<open>
  \<^verbatim>\<open>game_over\<close>.  An exception of \<^verbatim>\<open>update_high_score\<close> or \<^verbatim>\<open>update_leaderboard\<close>
  leaves \<^verbatim>\<open>game_over\<close>, \<^verbatim>\<open>update_game\<close> and \<^verbatim>\<open>run\<close>: the program ends.
\<close>

definition game_over :: "'f game \<Rightarrow> py_error + 'f game" where
  "game_over st =
     (let st1 = st\<lparr>game_running := False, game_status := ''gameover''\<rparr>
      in case update_high_score st1 of
           Inl e \<Rightarrow> Inl e
         | Inr st2 \<Rightarrow>
             (case update_leaderboard st2 of
                Inl e \<Rightarrow> Inl e
              | Inr r \<Rightarrow> Inr ((fst r)\<lparr>leaderboard := ScoreList (snd r)\<rparr>)))"

text \<open>The loaded scores are well typed: \<open>game_over\<close> raises nothing.\<close>

definition scores_readable :: "'f game \<Rightarrow> bool" where
  "scores_readable st \<longleftrightarrow>
     (case high_score st of Number h \<Rightarrow> True | NotANumber \<Rightarrow> False) \<and>
     (case load_leaderboard st of ScoreList xs \<Rightarrow> True | _ \<Rightarrow> False)"

text \<open>\<^verbatim>\<open>start_game\<close>, the action of the button "Start Game".\<close>

definition start_game :: "'f float_ops \<Rightarrow> 'f game \<Rightarrow> 'f game" where
  "start_game fl st =
     (if intruder_pos st = None then st
      else st\<lparr>game_status := ''running'', game_running := True,
              robot_speed := ROBOT_SPEED_INITIAL fl, steps := 0\<rparr>)"

definition clear_grid :: "'f float_ops \<Rightarrow> 'f game \<Rightarrow> 'f game" where
  "clear_grid fl st =
     st\<lparr>grid := replicate (nat GRID_SIZE) (replicate (nat GRID_SIZE) 0),
        robots := [],
        robot_counter := 1,
        intruder_pos := None,
        game_running := False,
        game_status := ''setup'',
        steps := 0,
        robot_speed := ROBOT_SPEED_INITIAL fl\<rparr>"

subsection \<open>\<^verbatim>\<open>update_game\<close>\<close>

text \<open>\<^verbatim>\<open>d[k] = v\<close>: a key already present keeps its place and takes the new value.\<close>

fun dict_set :: "'k \<Rightarrow> 'v \<Rightarrow> ('k \<times> 'v) list \<Rightarrow> ('k \<times> 'v) list" where
  "dict_set k v [] = [(k, v)]"
| "dict_set k v (p # ps) = (if fst p = k then (k, v) # ps else p # dict_set k v ps)"

text \<open>
  The loop \<^verbatim>\<open>for (robot_row, robot_col), number in self.robots.items()\<close> over the
  entries still to visit, with \<^verbatim>\<open>new_robots\<close> as accumulator.  The result
  \<open>Inr None\<close> is the early \<^verbatim>\<open>return\<close> after \<^verbatim>\<open>game_over()\<close>, \<open>Inr (Some new)\<close> the
  end of the loop.  With no intruder, \<^verbatim>\<open>manhattan_distance\<close> subscripts \<^verbatim>\<open>None\<close>.
\<close>

fun move_robots ::
  "int list list \<Rightarrow> cell option \<Rightarrow> (cell \<times> int) list \<Rightarrow> (cell \<times> int) list \<Rightarrow>
   (py_error + (cell \<times> int) list option) option" where
  "move_robots gr ip [] new_robots = Some (Inr (Some new_robots))"
| "move_robots gr ip (r # rs) new_robots =
     (case ip of
        None \<Rightarrow> Some (Inl TypeError)
      | Some goal \<Rightarrow>
         (case find_path gr (fst r) goal of
            None \<Rightarrow> None
          | Some (Inl e) \<Rightarrow> Some (Inl e)
          | Some (Inr path) \<Rightarrow>
             (case path of
                None \<Rightarrow> move_robots gr ip rs (dict_set (fst r) (snd r) new_robots)
              | Some p \<Rightarrow>
                  if length p > 1 then
                    let next_pos = p ! 1;
                        new_robots' = dict_set next_pos (snd r) new_robots
                    in if next_pos = goal then Some (Inr None)
                       else move_robots gr ip rs new_robots'
                  else move_robots gr ip rs (dict_set (fst r) (snd r) new_robots))))"

definition update_game ::
  "'f float_ops \<Rightarrow> 'f game \<Rightarrow> int \<Rightarrow> (py_error + 'f game) option" where
  "update_game fl st current_time =
     (if \<not> game_running st then Some (Inr st)
      else if tick_due fl (current_time - last_update st) (robot_speed st) then
        (case move_robots (grid st) (intruder_pos st) (robots st) [] of
           None \<Rightarrow> None
         | Some (Inl e) \<Rightarrow> Some (Inl e)
         | Some (Inr None) \<Rightarrow> Some (game_over st)
         | Some (Inr (Some new_robots)) \<Rightarrow>
             Some (Inr (st\<lparr>robots := new_robots, last_update := current_time\<rparr>)))
      else Some (Inr st))"

subsection \<open>The event handlers of \<^verbatim>\<open>run\<close>\<close>

datatype key = K_UP | K_DOWN | K_LEFT | K_RIGHT | K_SPACE | K_OTHER

text \<open>The branch \<^verbatim>\<open>elif event.type == pygame.KEYDOWN\<close>.\<close>

definition handle_keydown :: "'f float_ops \<Rightarrow> 'f game \<Rightarrow> key \<Rightarrow> py_error + 'f game" where
  "handle_keydown fl st k =
     (if game_status st = ''gameover'' \<and> \<not> game_running st then Inr (clear_grid fl st)
      else
        let st1 = (if k = K_SPACE \<and> intruder_pos st \<noteq> None \<and> \<not> game_running st
                   then st\<lparr>game_running := True, game_status := ''running''\<rparr> else st)
        in if game_running st1 then
             (case intruder_pos st1 of
                None \<Rightarrow> Inl TypeError
              | Some pos \<Rightarrow>
                  let row = fst pos; col = snd pos;
                      target = (case k of
                                  K_UP \<Rightarrow> (row - 1, col)
                                | K_DOWN \<Rightarrow> (row + 1, col)
                                | K_LEFT \<Rightarrow> (row, col - 1)
                                | K_RIGHT \<Rightarrow> (row, col + 1)
                                | _ \<Rightarrow> (row, col));
                      moved = (k = K_UP \<or> k = K_DOWN \<or> k = K_LEFT \<or> k = K_RIGHT)
                  in if in_bounds target then
                       (case grid_at (grid st1) target of
                          Inl e \<Rightarrow> Inl e
                        | Inr v \<Rightarrow>
                            if v = 0 then
                              let st2 = st1\<lparr>intruder_pos := Some target\<rparr>
                              in if moved then
                                   let st3 = st2\<lparr>steps := steps st2 + 1\<rparr>
                                   in if steps st3 > 0 \<and>
                                         steps st3 mod ROBOT_SPEED_INCREASE_STEPS = 0
                                      then Inr (st3\<lparr>robot_speed :=
                                                  speed_increase fl (robot_speed st3)\<rparr>)
                                      else Inr st3
                                 else Inr st2
                            else Inr st1)
                     else Inr st1)
           else Inr st1)"

text \<open>
  The part \<^verbatim>\<open># Handle grid clicks for intruder placement\<close> of the branch
  \<^verbatim>\<open>event.type == pygame.MOUSEBUTTONDOWN\<close>, for a click at pixel \<open>(x, y)\<close>.
\<close>

definition handle_grid_click :: "'f game \<Rightarrow> int \<times> int \<Rightarrow> py_error + 'f game" where
  "handle_grid_click st pos =
     (if \<not> game_running st then
        let grid_x = fst pos - PADDING;
            grid_y = snd pos - (2 * PADDING + BUTTON_HEIGHT)
        in if 0 \<le> grid_x \<and> grid_x \<le> GRID_SIZE * CELL_SIZE \<and>
              0 \<le> grid_y \<and> grid_y \<le> GRID_SIZE * CELL_SIZE then
             let col = grid_x div CELL_SIZE;
                 row = grid_y div CELL_SIZE
             in if in_bounds (row, col) then
                  (case grid_at (grid st) (row, col) of
                     Inl e \<Rightarrow> Inl e
                   | Inr v \<Rightarrow>
                       if v = 0 \<and> (row, col) \<notin> set (map fst (robots st))
                       then Inr (st\<lparr>intruder_pos := Some (row, col)\<rparr>)
                       else Inr st)
                else Inr st
           else Inr st
      else Inr st)"

subsection \<open>The next cell of a robot\<close>

text \<open>
  What one pass of the robot loop computes for a robot at \<open>pos\<close> with the intruder at
  \<open>ip\<close>: the second cell of the path when \<^verbatim>\<open>path and len(path) > 1\<close>, the robot's own
  cell otherwise.  \<open>robot_captures\<close> is the test \<^verbatim>\<open>next_pos == self.intruder_pos\<close>, which the
  source makes in the first case only.
\<close>

definition next_cell :: "int list list \<Rightarrow> cell \<Rightarrow> cell \<Rightarrow> cell" where
  "next_cell gr ip pos =
     (case find_path gr pos ip of
        Some (Inr (Some p)) \<Rightarrow> if length p > 1 then p ! 1 else pos
      | _ \<Rightarrow> pos)"

definition robot_captures :: "int list list \<Rightarrow> cell \<Rightarrow> cell \<Rightarrow> bool" where
  "robot_captures gr ip pos =
     (case find_path gr pos ip of
        Some (Inr (Some p)) \<Rightarrow> length p > 1 \<and> p ! 1 = ip
      | _ \<Rightarrow> False)"

definition place_robot :: "int list list \<Rightarrow> cell \<Rightarrow> cell \<times> int \<Rightarrow> (cell \<times> int) list \<Rightarrow> (cell \<times> int) list" where
  "place_robot gr ip r new_robots = dict_set (next_cell gr ip (fst r)) (snd r) new_robots"

subsection \<open>Invariants of the search\<close>

text \<open>
  The cells the search has not met yet, and the measure that decreases with every pass of
  the \<^verbatim>\<open>while\<close> loop: a pop shortens the heap, and a push takes a cell out of \<open>unseen\<close>.
\<close>

definition unseen :: "astar \<Rightarrow> cell set" where
  "unseen st = {c. in_bounds c \<and> c \<notin> closed_set st \<and> c \<notin> snd ` set (open_set st)}"

definition search_measure :: "astar \<Rightarrow> nat" where
  "search_measure st = 2 * card (unseen st) + length (open_set st)"

text \<open>
  The invariant of the loop: \<open>start\<close> has cost 0 and no predecessor; a predecessor is a
  closed cell, one move away, with a cost one less, and the cell it leads to is free; every
  cell with a cost other than \<open>start\<close> has a predecessor; every cell on the heap has a cost.
\<close>

definition search_inv :: "int list list \<Rightarrow> cell \<Rightarrow> astar \<Rightarrow> bool" where
  "search_inv gr start st \<longleftrightarrow>
     g_score st start = Some 0 \<and> came_from st start = None \<and>
     (\<forall>n p. came_from st n = Some p \<longrightarrow>
        p \<in> closed_set st \<and> adjacent p n \<and> free_cell gr n \<and>
        (\<exists>k. 0 \<le> k \<and> g_score st p = Some k \<and> g_score st n = Some (k + 1))) \<and>
     (\<forall>n. g_score st n \<noteq> None \<longrightarrow> n = start \<or> came_from st n \<noteq> None) \<and>
     (\<forall>x \<in> set (open_set st). g_score st (snd x) \<noteq> None)"

definition loop_inv :: "int list list \<Rightarrow> cell \<Rightarrow> astar \<Rightarrow> bool" where
  "loop_inv gr start st \<longleftrightarrow>
     search_inv gr start st \<and>
     (start \<in> closed_set st \<or> snd ` set (open_set st) \<subseteq> {start})"

subsection \<open>Python's floats\<close>

text \<open>
  A Python float is an IEEE 754 binary64 number.  A finite one is modelled by the rational
  it denotes.  \<open>round64 q\<close> is the float nearest to \<open>q\<close>, the one with the even significand
  when two are equally near: with \<open>2 ^ e \<le> \<bar>q\<bar> < 2 ^ (e + 1)\<close> the floats around \<open>q\<close> are
  the multiples of \<open>2 ^ (e - 52)\<close>.  A float literal denotes the rounded decimal, and
  \<^verbatim>\<open>+\<close> and \<^verbatim>\<open>/\<close> return the rounded exact result; an int operand is converted first
  (1000 is a float), and an int is compared with a float by exact values.  The bounds of
  the exponent are not modelled: the speed starts at 1 and only grows, by steps of 0.1
  that are rounded away long before the largest float, so neither it nor
  \<^verbatim>\<open>1000 / robot_speed\<close> leaves the range of the normal floats.
\<close>

definition pow2 :: "int \<Rightarrow> rat" where
  "pow2 e = (if 0 \<le> e then 2 ^ nat e else 1 / 2 ^ nat (- e))"

text \<open>The number of binary digits of a positive \<open>n\<close>.\<close>

function bit_length :: "int \<Rightarrow> int" where
  "bit_length n = (if n \<le> 0 then 0 else 1 + bit_length (n div 2))"
  by pat_completeness auto

termination
  by (relation "measure nat") auto

text \<open>The \<open>e\<close> with \<open>2 ^ e \<le> \<bar>q\<bar> < 2 ^ (e + 1)\<close>, for \<open>q\<close> other than 0.\<close>

definition binary_exponent :: "rat \<Rightarrow> int" where
  "binary_exponent q =
     (let a = fst (quotient_of \<bar>q\<bar>); b = snd (quotient_of \<bar>q\<bar>);
          d = bit_length a - bit_length b
      in if pow2 d \<le> \<bar>q\<bar> then d else d - 1)"

definition round_half_even :: "rat \<Rightarrow> int" where
  "round_half_even x =
     (let n = \<lfloor>x\<rfloor>; r = x - of_int n
      in if r < 1 / 2 then n
         else if 1 / 2 < r then n + 1
         else if even n then n else n + 1)"

definition round64 :: "rat \<Rightarrow> rat" where
  "round64 q =
     (if q = 0 then 0
      else let u = pow2 (binary_exponent q - 52)
           in of_int (round_half_even (q / u)) * u)"

text \<open>
  The float operations of the program: \<^verbatim>\<open>ROBOT_SPEED_INITIAL = 1.0\<close>,
  \<^verbatim>\<open>self.robot_speed += self.ROBOT_SPEED_INCREASE\<close> with \<^verbatim>\<open>ROBOT_SPEED_INCREASE = 0.1\<close>,
  and \<^verbatim>\<open>current_time - self.last_update >= 1000 / self.robot_speed\<close>.
\<close>

definition binary64_ops :: "rat float_ops" where
  "binary64_ops =
     \<lparr>ROBOT_SPEED_INITIAL = 1,
      speed_increase = (\<lambda>x. round64 (x + round64 (1 / 10))),
      tick_due = (\<lambda>elapsed speed. round64 (1000 / speed) \<le> of_int elapsed)\<rparr>"

text \<open>
  An instance of the float operations with exact rational arithmetic: what the program
  would compute if \<^verbatim>\<open>0.1\<close> were one tenth and no sum were rounded.
\<close>

definition exact_ops :: "rat float_ops" where
  "exact_ops =
     \<lparr>ROBOT_SPEED_INITIAL = 1,
      speed_increase = (\<lambda>x. x + 1 / 10),
      tick_due = (\<lambda>elapsed speed. 1000 / speed \<le> of_int elapsed)\<rparr>"

subsection \<open>Example layouts and states\<close>

text \<open>
  A layout with \<^verbatim>\<open>NUM_OBSTACLES\<close> = 30 obstacles, as \<^verbatim>\<open>add_random_obstacles\<close> may
  draw it: one at (1, 1), the whole of row 13 and the first 14 cells of row 14.
\<close>

definition sample_grid :: "int list list" where
  "sample_grid =
     [replicate 15 0, [0, 1] @ replicate 13 0] @ replicate 11 (replicate 15 0) @
     [replicate 15 1, replicate 14 1 @ [0]]"

text \<open>A running game on the sample layout, with the given robots, intruder and step count.\<close>

definition running_game :: "(cell \<times> int) list \<Rightarrow> cell \<Rightarrow> int \<Rightarrow> rat game" where
  "running_game rs ip n =
     \<lparr>game_status = ''running'', game_running = True, steps = n, high_score = Number 3,
      robot_speed = 1, robot_counter = 1 + int (length rs), last_update = 0,
      grid = sample_grid, robots = rs, intruder_pos = Some ip,
      leaderboard = ScoreList [], high_score_file = Some (Number 3), leaderboard_file = None,
      disk_writable = True\<rparr>"

text \<open>The same game after a capture: not running, with status \<^verbatim>\<open>"gameover"\<close>.\<close>

definition finished_game :: "rat game" where
  "finished_game =
     (running_game [((0, 0), 1), ((2, 3), 2), ((5, 5), 3), ((7, 7), 4)] (0, 1) 7)
       \<lparr>game_running := False, game_status := ''gameover''\<rparr>"

subsection \<open>The target of a move request\<close>

text \<open>The cell an arrow key asks the intruder to move to, from the cell \<open>pos\<close>.\<close>

definition move_target :: "key \<Rightarrow> cell \<Rightarrow> cell option" where
  "move_target k pos =
     (case k of
        K_UP \<Rightarrow> Some (fst pos - 1, snd pos)
      | K_DOWN \<Rightarrow> Some (fst pos + 1, snd pos)
      | K_LEFT \<Rightarrow> Some (fst pos, snd pos - 1)
      | K_RIGHT \<Rightarrow> Some (fst pos, snd pos + 1)
      | _ \<Rightarrow> None)"

text \<open>The pixel \<open>(dx, dy)\<close> inside the square the window draws for the cell \<open>(row, col)\<close>.\<close>

definition cell_pixel :: "cell \<Rightarrow> int \<times> int \<Rightarrow> int \<times> int" where
  "cell_pixel c d =
     (PADDING + snd c * CELL_SIZE + fst d, 2 * PADDING + BUTTON_HEIGHT + fst c * CELL_SIZE + snd d)"


subsection \<open>Runs of player moves\<close>

text \<open>
  A sequence of \<^verbatim>\<open>KEYDOWN\<close> events handled one after the other; the first exception ends
  the run.  A move is accepted when the game runs and the key is an arrow whose target is a
  free in-bounds cell; \<open>accepted_run\<close> says that every key of the sequence is an accepted
  move in the state it meets.
\<close>

fun key_events :: "'f float_ops \<Rightarrow> 'f game \<Rightarrow> key list \<Rightarrow> py_error + 'f game" where
  "key_events fl st [] = Inr st"
| "key_events fl st (k # ks) =
     (case handle_keydown fl st k of
        Inl e \<Rightarrow> Inl e
      | Inr st' \<Rightarrow> key_events fl st' ks)"

definition accepted_move :: "'f game \<Rightarrow> key \<Rightarrow> bool" where
  "accepted_move st k \<longleftrightarrow>
     game_running st \<and>
     (case intruder_pos st of
        None \<Rightarrow> False
      | Some pos \<Rightarrow>
          (case move_target k pos of
             None \<Rightarrow> False
           | Some target \<Rightarrow> free_cell (grid st) target))"

fun accepted_run :: "'f float_ops \<Rightarrow> 'f game \<Rightarrow> key list \<Rightarrow> bool" where
  "accepted_run fl st [] = True"
| "accepted_run fl st (k # ks) =
     (accepted_move st k \<and>
      (case handle_keydown fl st k of
         Inl e \<Rightarrow> False
       | Inr st' \<Rightarrow> accepted_run fl st' ks))"

section \<open>Properties of the path search\<close>

subsection \<open>The search returns, and what it returns is a walk\<close>

lemma py_index_in_range: "0 \<le> i \<Longrightarrow> i < int (length xs) \<Longrightarrow> py_index xs i = Inr (xs ! nat i)"
  by (simp add: py_index_def)

lemma grid_at_wf:
  assumes "wf_grid gr" "in_bounds c"
  shows "grid_at gr c = Inr 0 \<or> grid_at gr c = Inr 1"
proof -
  from assms have r: "0 \<le> fst c" "fst c < int (length gr)" and k: "0 \<le> snd c" "snd c < GRID_SIZE"
    by (simp_all add: wf_grid_def in_bounds_def)
  then have mem: "gr ! nat (fst c) \<in> set gr" by simp
  with assms(1) have len: "int (length (gr ! nat (fst c))) = GRID_SIZE"
    and vals: "list_all (\<lambda>v. v = 0 \<or> v = 1) (gr ! nat (fst c))"
    by (simp_all add: wf_grid_def list_all_iff)
  from k len have "gr ! nat (fst c) ! nat (snd c) \<in> set (gr ! nat (fst c))" by simp
  with vals have "gr ! nat (fst c) ! nat (snd c) = 0 \<or> gr ! nat (fst c) ! nat (snd c) = 1"
    by (simp add: list_all_iff)
  moreover have "grid_at gr c = Inr (gr ! nat (fst c) ! nat (snd c))"
    using r k len by (simp add: grid_at_def py_index_in_range)
  ultimately show ?thesis by auto
qed

lemma fold_min_in: "fold min xs (a::'a::linorder) \<in> insert a (set xs)"
  by (induction xs arbitrary: a) (auto simp: min_def)

lemma heap_least_in: "h \<noteq> [] \<Longrightarrow> heap_least h \<in> set h"
  using fold_min_in [of "tl h" "hd h"] by (cases h) (auto simp: heap_least_def)

lemma finite_in_bounds: "finite {c. in_bounds c}"
proof -
  have "{c. in_bounds c} \<subseteq> {0..<GRID_SIZE} \<times> {0..<GRID_SIZE}"
    by (auto simp: in_bounds_def)
  then show ?thesis by (rule finite_subset) simp
qed

lemma finite_unseen: "finite (unseen st)"
  by (rule finite_subset [OF _ finite_in_bounds]) (auto simp: unseen_def)

lemma search_inv_g_nonneg:
  "search_inv gr start st \<Longrightarrow> g_score st n = Some k \<Longrightarrow> 0 \<le> k"
  unfolding search_inv_def by (metis add_nonneg_nonneg option.distinct(1) option.inject zero_le_one order_refl not_None_eq)

lemma search_inv_update:
  assumes inv: "search_inv gr start st"
    and clo: "start \<in> closed_set st" "current \<in> closed_set st" "nb \<notin> closed_set st"
    and g: "g_score st current = Some gc"
    and adj: "adjacent current nb" "free_cell gr nb"
    and cf': "came_from st' = (came_from st)(nb := Some current)"
    and g': "g_score st' = (g_score st)(nb := Some (gc + 1))"
    and cl': "closed_set st' = closed_set st"
    and op': "set (open_set st') \<subseteq> insert (f, nb) (set (open_set st))"
  shows "search_inv gr start st'"
proof -
  have ne: "nb \<noteq> start" "nb \<noteq> current" using clo by auto
  have gc0: "0 \<le> gc" using search_inv_g_nonneg [OF inv g] .
  have a: "g_score st' start = Some 0 \<and> came_from st' start = None"
    using inv ne by (simp add: search_inv_def cf' g')
  have b: "p \<in> closed_set st' \<and> adjacent p n \<and> free_cell gr n \<and>
        (\<exists>k. 0 \<le> k \<and> g_score st' p = Some k \<and> g_score st' n = Some (k + 1))"
    if h: "came_from st' n = Some p" for n p
  proof (cases "n = nb")
    case True
    with h have "p = current" by (simp add: cf')
    with True show ?thesis using clo adj g gc0 ne by (simp add: cl' g')
  next
    case False
    with h have old: "came_from st n = Some p" by (simp add: cf')
    with inv have o: "p \<in> closed_set st" "adjacent p n" "free_cell gr n"
      "\<exists>k. 0 \<le> k \<and> g_score st p = Some k \<and> g_score st n = Some (k + 1)"
      unfolding search_inv_def by blast+
    from o(1) clo(3) have "p \<noteq> nb" by auto
    with o False show ?thesis by (simp add: cl' g')
  qed
  have c: "n = start \<or> came_from st' n \<noteq> None" if "g_score st' n \<noteq> None" for n
  proof (cases "n = nb")
    case True
    then show ?thesis by (simp add: cf')
  next
    case False
    with that have "g_score st n \<noteq> None" by (simp add: g')
    with inv have "n = start \<or> came_from st n \<noteq> None" unfolding search_inv_def by blast
    with False show ?thesis by (simp add: cf')
  qed
  have d: "g_score st' (snd x) \<noteq> None" if "x \<in> set (open_set st')" for x
  proof -
    from that op' have "x = (f, nb) \<or> x \<in> set (open_set st)" by auto
    then show ?thesis using inv unfolding search_inv_def by (auto simp: g')
  qed
  show ?thesis unfolding search_inv_def using a b c d by blast
qed

lemma adjacent_direction:
  "d \<in> set directions \<Longrightarrow> adjacent c (fst c + fst d, snd c + snd d)"
  by (auto simp: directions_def adjacent_def)

lemma search_measure_push:
  assumes "in_bounds nb" "nb \<notin> closed_set st" "nb \<notin> snd ` set (open_set st)"
    and "closed_set st' = closed_set st" "open_set st' = heappush (open_set st) (f, nb)"
  shows "search_measure st' \<le> search_measure st"
proof -
  have mem: "nb \<in> unseen st" using assms by (simp add: unseen_def)
  have "unseen st' = unseen st - {nb}"
    using assms by (auto simp: unseen_def heappush_def)
  then have "card (unseen st') = card (unseen st) - 1"
    using mem by (simp add: finite_unseen)
  moreover have "card (unseen st) > 0"
    using mem finite_unseen [of st] by (auto simp: card_gt_0_iff)
  ultimately show ?thesis using assms by (simp add: search_measure_def heappush_def)
qed

lemma search_measure_same:
  "closed_set st' = closed_set st \<Longrightarrow> open_set st' = open_set st \<Longrightarrow>
   search_measure st' = search_measure st"
  by (simp add: search_measure_def unseen_def)

lemma visit_ok:
  assumes wf: "wf_grid gr" and inv: "search_inv gr start st"
    and clo: "start \<in> closed_set st" "current \<in> closed_set st"
    and g: "g_score st current = Some gc" and d: "d \<in> set directions"
  shows "\<exists>st'. visit gr goal current st d = Inr st' \<and> search_inv gr start st' \<and>
     closed_set st' = closed_set st \<and> g_score st' current = Some gc \<and>
     search_measure st' \<le> search_measure st"
proof -
  define nb where "nb = (fst current + fst d, snd current + snd d)"
  have adj: "adjacent current nb" unfolding nb_def by (rule adjacent_direction [OF d])
  show ?thesis
  proof (cases "in_bounds nb")
    case False
    then have "visit gr goal current st d = Inr st" by (simp add: visit_def nb_def Let_def)
    then show ?thesis using inv g by simp
  next
    case ib: True
    from grid_at_wf [OF wf ib] show ?thesis
    proof
      assume v1: "grid_at gr nb = Inr 1"
      with ib have "visit gr goal current st d = Inr st"
        by (simp add: visit_def nb_def [symmetric] Let_def)
      then show ?thesis using inv g by simp
    next
      assume v0: "grid_at gr nb = Inr 0"
      then have free: "free_cell gr nb" using ib by (simp add: free_cell_def)
      show ?thesis
      proof (cases "nb \<in> closed_set st")
        case True
        with ib v0 have "visit gr goal current st d = Inr st"
          by (simp add: visit_def nb_def [symmetric] Let_def)
        then show ?thesis using inv g by simp
      next
        case ncl: False
        then have ne: "nb \<noteq> current" using clo by auto
        show ?thesis
        proof (cases "case g_score st nb of None \<Rightarrow> True | Some gn \<Rightarrow> gc + 1 < gn")
          case False
          with ib v0 ncl g have "visit gr goal current st d = Inr st"
            by (simp add: visit_def nb_def [symmetric] Let_def)
          then show ?thesis using inv g by simp
        next
          case better: True
          define f where "f = gc + 1 + manhattan_distance nb goal"
          define st1 where "st1 = st\<lparr>came_from := (came_from st)(nb := Some current),
                             g_score := (g_score st)(nb := Some (gc + 1)),
                             f_score := (f_score st)(nb := Some f)\<rparr>"
          show ?thesis
          proof (cases "nb \<in> snd ` set (open_set st)")
            case True
            with ib v0 ncl g better have r: "visit gr goal current st d = Inr st1"
              by (simp add: visit_def nb_def [symmetric] Let_def st1_def f_def)
            have "search_inv gr start st1"
              by (rule search_inv_update [OF inv clo ncl g adj free, where f = f])
                (auto simp: st1_def)
            moreover have "search_measure st1 = search_measure st"
              by (rule search_measure_same) (simp_all add: st1_def)
            ultimately show ?thesis using r ne g by (simp add: st1_def)
          next
            case nop: False
            define st2 where "st2 = st1\<lparr>open_set := heappush (open_set st1) (f, nb)\<rparr>"
            from nop ib v0 ncl g better have r: "visit gr goal current st d = Inr st2"
              by (simp add: visit_def nb_def [symmetric] Let_def st1_def st2_def f_def)
            have "search_inv gr start st2"
              by (rule search_inv_update [OF inv clo ncl g adj free, where f = f])
                (auto simp: st1_def st2_def heappush_def)
            moreover have "search_measure st2 \<le> search_measure st"
              by (rule search_measure_push [OF ib ncl nop, where f = f])
                (simp_all add: st1_def st2_def)
            ultimately show ?thesis using r ne g by (simp add: st1_def st2_def)
          qed
        qed
      qed
    qed
  qed
qed


lemma for_neighbors_ok:
  assumes wf: "wf_grid gr" and inv: "search_inv gr start st"
    and clo: "start \<in> closed_set st" "current \<in> closed_set st"
    and g: "g_score st current = Some gc" and ds: "set ds \<subseteq> set directions"
  shows "\<exists>st'. for_neighbors gr goal current ds st = Inr st' \<and> search_inv gr start st' \<and>
     closed_set st' = closed_set st \<and> search_measure st' \<le> search_measure st"
  using inv clo g ds
proof (induction ds arbitrary: st)
  case Nil
  then show ?case by simp
next
  case (Cons d ds)
  from Cons.prems have d: "d \<in> set directions" by simp
  from visit_ok [OF wf Cons.prems(1-4) d, of goal] obtain st1 where
    v: "visit gr goal current st d = Inr st1" and i1: "search_inv gr start st1"
    and c1: "closed_set st1 = closed_set st" and g1: "g_score st1 current = Some gc"
    and m1: "search_measure st1 \<le> search_measure st" by blast
  from Cons.prems c1 have p: "start \<in> closed_set st1" "current \<in> closed_set st1"
    "set ds \<subseteq> set directions" by simp_all
  from Cons.IH [OF i1 p(1,2) g1 p(3)] obtain st' where
    "for_neighbors gr goal current ds st1 = Inr st'" "search_inv gr start st'"
    "closed_set st' = closed_set st1" "search_measure st' \<le> search_measure st1" by blast
  with v c1 m1 show ?case by simp
qed

lemma walk_snoc:
  "walk gr p \<Longrightarrow> adjacent (last p) c \<Longrightarrow> free_cell gr c \<Longrightarrow> walk gr (p @ [c])"
  by (induction gr p rule: walk.induct) simp_all

lemma reconstruct_ok:
  assumes inv: "search_inv gr start st"
  shows "g_score st c = Some k \<Longrightarrow>
     \<exists>p. reconstruct (came_from st) start c acc = Some (p @ acc) \<and> path_between gr start c p"
proof (induction "nat k" arbitrary: k c acc)
  case 0
  have k0: "0 \<le> k" using search_inv_g_nonneg [OF inv "0.prems"] .
  with "0.hyps" have kz: "k = 0" by simp
  have "came_from st c = None"
  proof (rule ccontr)
    assume "came_from st c \<noteq> None"
    then obtain p where "came_from st c = Some p" by blast
    with inv obtain j where "0 \<le> j" "g_score st c = Some (j + 1)"
      unfolding search_inv_def by blast
    with "0.prems" kz show False by simp
  qed
  moreover from this inv "0.prems" have "c = start" unfolding search_inv_def by blast
  ultimately have "reconstruct (came_from st) start c acc = Some ([start] @ acc)"
    "path_between gr start c [start]"
    by (simp_all add: reconstruct.simps path_between_def)
  then show ?case by blast
next
  case (Suc m)
  show ?case
  proof (cases "came_from st c")
    case None
    with inv Suc.prems have "c = start" unfolding search_inv_def by blast
    with None have "reconstruct (came_from st) start c acc = Some ([start] @ acc)"
      "path_between gr start c [start]"
      by (simp_all add: reconstruct.simps path_between_def)
    then show ?thesis by blast
  next
    case (Some prev)
    with inv obtain j where j: "0 \<le> j" "g_score st prev = Some j" "g_score st c = Some (j + 1)"
      and adj: "adjacent prev c" "free_cell gr c"
      unfolding search_inv_def by blast
    from j Suc.prems have "k = j + 1" by simp
    with Suc.hyps j(1) have "m = nat j" by simp
    from Suc.hyps(1) [OF this j(2), of "c # acc"] obtain p where
      r: "reconstruct (came_from st) start prev (c # acc) = Some (p @ c # acc)"
      and pb: "path_between gr start prev p" by blast
    from Some r have "reconstruct (came_from st) start c acc = Some ((p @ [c]) @ acc)"
      by (subst reconstruct.simps) simp
    moreover from pb adj have "path_between gr start c (p @ [c])"
      by (simp add: path_between_def walk_snoc)
    ultimately show ?thesis by blast
  qed
qed

lemma search_measure_pop:
  assumes "x \<in> set (open_set st)"
    and "closed_set st' = insert (snd x) (closed_set st)"
    and "open_set st' = remove1 x (open_set st)"
  shows "search_measure st' < search_measure st"
proof -
  have "unseen st' \<subseteq> unseen st"
  proof
    fix c assume c: "c \<in> unseen st'"
    have "c \<notin> snd ` set (open_set st)"
    proof
      assume "c \<in> snd ` set (open_set st)"
      then obtain y where y: "y \<in> set (open_set st)" "c = snd y" by blast
      show False
      proof (cases "y = x")
        case True
        with y c assms show False by (simp add: unseen_def)
      next
        case False
        with y have "y \<in> set (remove1 x (open_set st))" by simp
        with y c assms show False by (auto simp: unseen_def)
      qed
    qed
    with c assms show "c \<in> unseen st" by (simp add: unseen_def)
  qed
  then have "card (unseen st') \<le> card (unseen st)"
    by (rule card_mono [OF finite_unseen])
  moreover have "length (open_set st') < length (open_set st)"
    using assms by (simp add: length_remove1) (cases "open_set st", auto)
  ultimately show ?thesis by (simp add: search_measure_def)
qed

lemma astar_loop_ok:
  assumes wf: "wf_grid gr"
  shows "loop_inv gr start st \<Longrightarrow>
     \<exists>r. astar_loop gr start goal st = Some (Inr r) \<and>
       (\<forall>p. r = Some p \<longrightarrow> path_between gr start goal p)"
proof (induction "search_measure st" arbitrary: st rule: less_induct)
  case less
  from less.prems have inv: "search_inv gr start st"
    and first: "start \<in> closed_set st \<or> snd ` set (open_set st) \<subseteq> {start}"
    by (simp_all add: loop_inv_def)
  show ?case
  proof (cases "open_set st = []")
    case True
    then show ?thesis by (subst astar_loop.simps) simp
  next
    case ne: False
    define x where "x = heap_least (open_set st)"
    define current where "current = snd x"
    have xin: "x \<in> set (open_set st)" unfolding x_def by (rule heap_least_in [OF ne])
    with inv obtain gc where gc: "g_score st current = Some gc"
      unfolding search_inv_def current_def by blast
    show ?thesis
    proof (cases "current = goal")
      case True
      from reconstruct_ok [OF inv gc, of "[]"] obtain p where
        "reconstruct (came_from st) start current [] = Some p" "path_between gr start current p"
        by auto
      with ne True show ?thesis
        by (subst astar_loop.simps)
          (simp add: Let_def heappop_def x_def [symmetric] current_def [symmetric])
    next
      case ng: False
      define st2 where "st2 = st\<lparr>open_set := remove1 x (open_set st),
        closed_set := insert current (closed_set st)\<rparr>"
      have inv2: "search_inv gr start st2"
        using inv unfolding search_inv_def st2_def
        by (simp add: notin_set_remove1) (meson notin_set_remove1)
      have cur2: "current \<in> closed_set st2" by (simp add: st2_def)
      have start2: "start \<in> closed_set st2"
        using first xin by (auto simp: st2_def current_def)
      have g2: "g_score st2 current = Some gc" using gc by (simp add: st2_def)
      have m2: "search_measure st2 < search_measure st"
        by (rule search_measure_pop [OF xin]) (simp_all add: st2_def current_def)
      from for_neighbors_ok [OF wf inv2 start2 cur2 g2 subset_refl, of goal] obtain st' where
        fn: "for_neighbors gr goal current directions st2 = Inr st'"
        and inv': "search_inv gr start st'"
        and cl': "closed_set st' = closed_set st2"
        and m': "search_measure st' \<le> search_measure st2" by blast
      have "loop_inv gr start st'" using inv' cl' start2 by (simp add: loop_inv_def)
      moreover have "search_measure st' < search_measure st" using m' m2 by simp
      ultimately have "\<exists>r. astar_loop gr start goal st' = Some (Inr r) \<and>
          (\<forall>p. r = Some p \<longrightarrow> path_between gr start goal p)"
        using less.hyps by blast
      moreover have "astar_loop gr start goal st = astar_loop gr start goal st'"
        using ne ng fn
        by (subst astar_loop.simps)
          (simp add: Let_def heappop_def x_def [symmetric] current_def [symmetric] st2_def)
      ultimately show ?thesis by simp
    qed
  qed
qed

lemma loop_inv_init: "loop_inv gr start (astar_init start goal)"
  by (simp add: loop_inv_def search_inv_def astar_init_def heappush_def)

lemma find_path_ok:
  assumes "wf_grid gr"
  shows "\<exists>r. find_path gr start goal = Some (Inr r) \<and>
       (\<forall>p. r = Some p \<longrightarrow> path_between gr start goal p)"
  unfolding find_path_def by (rule astar_loop_ok [OF assms loop_inv_init])


text \<open>
  C10.  For every cell \<open>c\<close> and every grid, also when \<open>c\<close> is an obstacle or lies
  outside the grid, \<open>find_path c c\<close> returns the one-element path \<open>[c]\<close>: the start is
  popped first, equals the goal, and no check of the cell is made.
\<close>

theorem find_path_trivial: "find_path gr c c = Some (Inr (Some [c]))"
  by (simp add: find_path_def astar_init_def astar_loop.simps heappush_def heappop_def
      heap_least_def reconstruct.simps)

text \<open>
  C1.  On the sample layout of 30 obstacles, with the free in-bounds cells
  (2, 4) as start and (1, 0) as goal, \<open>find_path\<close> returns a walk of 8 cells (7 moves),
  while the walk along row 2 has 6 cells (5 moves): the returned path is not a shortest one.
  The cell (2, 2) is first reached from (1, 2) with cost 4 and pushed with priority 7; it is
  reached again from (2, 3) with cost 2, which lowers its \<open>g_score\<close> and \<open>f_score\<close>
  entries (the new \<open>f\<close> is 5), but the heap keeps the entry with priority 7, so the cells
  (0, 2), (0, 1), (0, 0) and the goal, all of priority 7 and smaller in the tuple order, are
  popped before (2, 2).
\<close>

theorem find_path_not_shortest:
  "wf_grid sample_grid \<and>
   free_cell sample_grid (2, 4) \<and> free_cell sample_grid (1, 0) \<and>
   find_path sample_grid (2, 4) (1, 0) =
     Some (Inr (Some [(2, 4), (1, 4), (1, 3), (1, 2), (0, 2), (0, 1), (0, 0), (1, 0)])) \<and>
   path_between sample_grid (2, 4) (1, 0) [(2, 4), (2, 3), (2, 2), (2, 1), (2, 0), (1, 0)]"
  by code_simp


subsection \<open>No walk, no path\<close>

lemma walk_tail_free: "walk gr (a # q) \<Longrightarrow> q \<noteq> [] \<Longrightarrow> free_cell gr (last q)"
proof (induction q arbitrary: a)
  case Nil
  then show ?case by simp
next
  case (Cons b q)
  from Cons.prems have fb: "free_cell gr b" and w: "walk gr (b # q)" by simp_all
  show ?case
  proof (cases "q = []")
    case True
    with fb show ?thesis by simp
  next
    case False
    with Cons.IH [OF w] show ?thesis by simp
  qed
qed

lemma no_path_to_blocked:
  assumes "start \<noteq> goal" "\<not> free_cell gr goal"
  shows "\<not> (\<exists>p. path_between gr start goal p)"
proof
  assume "\<exists>p. path_between gr start goal p"
  then obtain p where p: "p \<noteq> []" "hd p = start" "last p = goal" "walk gr p"
    by (auto simp: path_between_def)
  then obtain q where q: "p = start # q" by (cases p) auto
  with p assms have "q \<noteq> []" by auto
  from p q have "walk gr (start # q)" by simp
  from walk_tail_free [OF this \<open>q \<noteq> []\<close>] have "free_cell gr (last q)" .
  moreover from p q \<open>q \<noteq> []\<close> have "last q = goal" by simp
  ultimately show False using assms by simp
qed

text \<open>
  C2, as the spec states it, fails: the start cell is never checked.  On the sample layout,
  from the obstacle cell (1, 1) and from the cell (-1, 0) outside the grid, \<open>find_path\<close>
  returns a path instead of \<open>None\<close>.
\<close>

theorem find_path_from_blocked_start:
  "obstacle_cell sample_grid (1, 1) \<and>
   find_path sample_grid (1, 1) (1, 0) = Some (Inr (Some [(1, 1), (1, 0)])) \<and>
   \<not> in_bounds (-1, 0) \<and>
   find_path sample_grid (-1, 0) (0, 0) = Some (Inr (Some [(-1, 0), (0, 0)]))"
  by code_simp

text \<open>
  C2, amended.  On a well-formed grid \<open>find_path\<close> returns, and it returns \<open>None\<close>
  whenever there is no walk from \<open>start\<close> to \<open>goal\<close>, that is, no list of cells from
  \<open>start\<close> to \<open>goal\<close> whose cells after the first are free in-bounds cells, each
  4-adjacent to the one before.  In particular it returns \<open>None\<close> whenever \<open>goal\<close>
  differs from \<open>start\<close> and is an obstacle or lies out of bounds.
\<close>

theorem find_path_none:
  assumes "wf_grid gr"
  shows "(\<not> (\<exists>p. path_between gr start goal p) \<longrightarrow> find_path gr start goal = Some (Inr None)) \<and>
         (start \<noteq> goal \<and> \<not> free_cell gr goal \<longrightarrow> find_path gr start goal = Some (Inr None))"
proof -
  from find_path_ok [OF assms, of start goal] obtain r where
    r: "find_path gr start goal = Some (Inr r)"
    "\<forall>p. r = Some p \<longrightarrow> path_between gr start goal p" by blast
  have a: "find_path gr start goal = Some (Inr None)" if "\<not> (\<exists>p. path_between gr start goal p)"
    using r that by (cases r) auto
  moreover have "find_path gr start goal = Some (Inr None)"
    if "start \<noteq> goal \<and> \<not> free_cell gr goal"
    using a no_path_to_blocked that by blast
  ultimately show ?thesis by blast
qed

lemma wf_sample_grid: "wf_grid sample_grid"
  by code_simp

lemma sample_obstacle_not_free: "\<not> free_cell sample_grid (1, 1)"
  by code_simp

theorem find_path_none_witness:
  "wf_grid sample_grid \<and>
   \<not> (\<exists>p. path_between sample_grid (0, 1) (1, 1) p) \<and>
   ((0, 1) :: cell) \<noteq> (1, 1) \<and> \<not> free_cell sample_grid (1, 1) \<and>
   find_path sample_grid (0, 1) (1, 1) = Some (Inr None)"
proof -
  have ne: "((0, 1) :: cell) \<noteq> (1, 1)" by simp
  have "\<not> (\<exists>p. path_between sample_grid (0, 1) (1, 1) p)"
    by (rule no_path_to_blocked [OF ne sample_obstacle_not_free])
  then show ?thesis
    using find_path_none [OF wf_sample_grid, of "(0, 1)" "(1, 1)"]
      wf_sample_grid sample_obstacle_not_free by simp
qed

section \<open>Properties of the score store\<close>








section \<open>Properties of the event handlers\<close>

text \<open>
  C7.  While the game runs, an arrow key whose target cell is out of bounds or an obstacle
  leaves the whole state as it was, and the handler raises nothing.
\<close>

theorem blocked_move_no_change:
  assumes "game_running st" "intruder_pos st = Some pos" "move_target k pos = Some target"
    and "\<not> in_bounds target \<or> obstacle_cell (grid st) target"
  shows "handle_keydown fl st k = Inr st"
  using assms
  by (cases k) (auto simp: handle_keydown_def move_target_def obstacle_cell_def Let_def)

theorem blocked_move_no_change_witness:
  "game_running (running_game [((5, 5), 1)] (0, 0) 3) \<and>
   intruder_pos (running_game [((5, 5), 1)] (0, 0) 3) = Some (0, 0) \<and>
   move_target K_UP (0, 0) = Some (-1, 0) \<and> \<not> in_bounds (-1, 0) \<and>
   handle_keydown binary64_ops (running_game [((5, 5), 1)] (0, 0) 3) K_UP =
     Inr (running_game [((5, 5), 1)] (0, 0) 3)"
proof -
  have h: "game_running (running_game [((5, 5), 1)] (0, 0) 3)"
    "intruder_pos (running_game [((5, 5), 1)] (0, 0) 3) = Some (0, 0)"
    "move_target K_UP (0, 0) = Some (-1, 0)"
    "\<not> in_bounds (-1, 0) \<or> obstacle_cell (grid (running_game [((5, 5), 1)] (0, 0) 3)) (-1, 0)"
    by (simp_all add: running_game_def move_target_def in_bounds_def)
  show ?thesis
    using blocked_move_no_change [OF h, of binary64_ops] h by (simp add: in_bounds_def)
qed

text \<open>
  C9, as the spec states it, fails: the handler tests \<^verbatim>\<open>not self.game_running\<close>, not the
  status.  After a capture (status \<^verbatim>\<open>"gameover"\<close>) a click inside the square of the free
  cell (4, 5) moves the intruder from (0, 1) to (4, 5).
\<close>

theorem placement_after_game_over:
  "game_status finished_game = ''gameover'' \<and> intruder_pos finished_game = Some (0, 1) \<and>
   map_sum id intruder_pos (handle_grid_click finished_game (223, 243)) = Inr (Some (4, 5))"
  by code_simp

lemma cell_of_pixel:
  assumes "0 \<le> (e::int)" "e < CELL_SIZE"
  shows "(n * CELL_SIZE + e) div CELL_SIZE = n"
  using assms by (simp add: CELL_SIZE_def)

text \<open>
  C9, amended.  A click on a pixel inside the square of the cell \<open>c\<close> sets the intruder to
  \<open>c\<close> exactly when the game is not running (status \<^verbatim>\<open>"setup"\<close> or \<^verbatim>\<open>"gameover"\<close>) and
  \<open>c\<close> is an in-bounds free cell that holds no robot; in every other case the state is
  unchanged.  Nothing is raised.
\<close>

theorem grid_click_placement:
  assumes wf: "wf_grid (grid st)"
    and d: "0 \<le> fst d" "fst d < CELL_SIZE" "0 \<le> snd d" "snd d < CELL_SIZE"
  shows "handle_grid_click st (cell_pixel c d) =
     Inr (if \<not> game_running st \<and> free_cell (grid st) c \<and> c \<notin> fst ` set (robots st)
          then st\<lparr>intruder_pos := Some c\<rparr> else st)"
proof -
  have col: "(snd c * CELL_SIZE + fst d) div CELL_SIZE = snd c"
    and row: "(fst c * CELL_SIZE + snd d) div CELL_SIZE = fst c"
    using d by (simp_all add: cell_of_pixel)
  show ?thesis
  proof (cases "in_bounds c")
    case False
    then have "\<not> free_cell (grid st) c" by (simp add: free_cell_def)
    with False show ?thesis
      using col row by (simp add: handle_grid_click_def cell_pixel_def Let_def)
  next
    case True
    then have rng: "0 \<le> snd c * CELL_SIZE + fst d" "snd c * CELL_SIZE + fst d \<le> GRID_SIZE * CELL_SIZE"
      "0 \<le> fst c * CELL_SIZE + snd d" "fst c * CELL_SIZE + snd d \<le> GRID_SIZE * CELL_SIZE"
      using d by (simp_all add: in_bounds_def CELL_SIZE_def GRID_SIZE_def)
    from grid_at_wf [OF wf True] show ?thesis
    proof
      assume "grid_at (grid st) c = Inr 0"
      with True rng show ?thesis
        using col row by (simp add: handle_grid_click_def cell_pixel_def Let_def free_cell_def)
    next
      assume "grid_at (grid st) c = Inr 1"
      with True rng show ?thesis
        using col row by (simp add: handle_grid_click_def cell_pixel_def Let_def free_cell_def)
    qed
  qed
qed

theorem grid_click_placement_witness:
  "wf_grid (grid finished_game) \<and> (0::int) \<le> 3 \<and> (3::int) < CELL_SIZE \<and>
   handle_grid_click finished_game (cell_pixel (4, 5) (3, 3)) =
     Inr (finished_game\<lparr>intruder_pos := Some (4, 5)\<rparr>)"
proof -
  have wf: "wf_grid (grid finished_game)"
    using wf_sample_grid by (simp add: finished_game_def running_game_def)
  have d: "0 \<le> fst (3::int, 3::int)" "fst (3::int, 3::int) < CELL_SIZE"
    "0 \<le> snd (3::int, 3::int)" "snd (3::int, 3::int) < CELL_SIZE"
    by (simp_all add: CELL_SIZE_def)
  have f: "free_cell (grid finished_game) (4, 5)" by code_simp
  have r: "\<not> game_running finished_game" "(4, 5) \<notin> fst ` set (robots finished_game)"
    by (simp_all add: finished_game_def running_game_def)
  show ?thesis
    using grid_click_placement [OF wf d, of "(4, 5)"] wf f r by (simp add: CELL_SIZE_def)
qed

section \<open>Properties of the tick\<close>

lemma next_cell_cases:
  "find_path gr pos ip = Some (Inr None) \<Longrightarrow> next_cell gr ip pos = pos"
  "find_path gr pos ip = Some (Inr (Some p)) \<Longrightarrow> 1 < length p \<Longrightarrow> next_cell gr ip pos = p ! 1"
  "find_path gr pos ip = Some (Inr (Some p)) \<Longrightarrow> \<not> 1 < length p \<Longrightarrow> next_cell gr ip pos = pos"
  by (simp_all add: next_cell_def)

lemma robot_captures_cases:
  "find_path gr pos ip = Some (Inr None) \<Longrightarrow> \<not> robot_captures gr ip pos"
  "find_path gr pos ip = Some (Inr (Some p)) \<Longrightarrow> 1 < length p \<Longrightarrow>
     robot_captures gr ip pos \<longleftrightarrow> p ! 1 = ip"
  "find_path gr pos ip = Some (Inr (Some p)) \<Longrightarrow> \<not> 1 < length p \<Longrightarrow> \<not> robot_captures gr ip pos"
  by (simp_all add: robot_captures_def)

lemma move_robots_char:
  assumes wf: "wf_grid gr"
  shows "move_robots gr (Some ip) rs acc =
     Some (Inr (if \<exists>r\<in>set rs. robot_captures gr ip (fst r) then None
                else Some (fold (place_robot gr ip) rs acc)))"
proof (induction rs arbitrary: acc)
  case Nil
  show ?case by simp
next
  case (Cons r rs)
  from find_path_ok [OF wf, of "fst r" ip] obtain res where
    res: "find_path gr (fst r) ip = Some (Inr res)" by blast
  show ?case
  proof (cases res)
    case None
    with res have fp: "find_path gr (fst r) ip = Some (Inr None)" by simp
    show ?thesis
      using fp next_cell_cases(1) [OF fp] robot_captures_cases(1) [OF fp] Cons.IH
      by (simp add: place_robot_def)
  next
    case (Some p)
    with res have fp: "find_path gr (fst r) ip = Some (Inr (Some p))" by simp
    show ?thesis
    proof (cases "1 < length p")
      case True
      show ?thesis
        using fp True next_cell_cases(2) [OF fp True] robot_captures_cases(2) [OF fp True] Cons.IH
        by (simp add: place_robot_def Let_def)
    next
      case False
      show ?thesis
        using fp False next_cell_cases(3) [OF fp False] robot_captures_cases(3) [OF fp False]
          Cons.IH
        by (simp add: place_robot_def)
    qed
  qed
qed

lemma update_game_tick:
  assumes "wf_grid (grid st)" "game_running st"
    and "tick_due fl (now - last_update st) (robot_speed st)" "intruder_pos st = Some ip"
  shows "update_game fl st now =
     Some (if \<exists>r\<in>set (robots st). robot_captures (grid st) ip (fst r) then game_over st
           else Inr (st\<lparr>robots := fold (place_robot (grid st) ip) (robots st) [],
                        last_update := now\<rparr>))"
  using assms by (simp add: update_game_def move_robots_char)

lemma game_over_keeps:
  assumes "game_over st = Inr st'"
  shows "robots st' = robots st \<and> \<not> game_running st' \<and> game_status st' = ''gameover'' \<and>
     steps st' = steps st"
  using assms
  by (auto simp: game_over_def update_high_score_def save_high_score_def update_leaderboard_def
      save_leaderboard_def Let_def split: json_score.splits json_scores.splits if_splits)

lemma game_over_readable:
  assumes "scores_readable st"
  shows "\<exists>st'. game_over st = Inr st'"
  using assms
  by (auto simp: scores_readable_def game_over_def update_high_score_def save_high_score_def
      update_leaderboard_def save_leaderboard_def load_leaderboard_def Let_def
      split: json_score.splits json_scores.splits option.splits)

lemma dict_set_fresh: "k \<notin> fst ` set ps \<Longrightarrow> dict_set k v ps = ps @ [(k, v)]"
  by (induction ps) auto

lemma fold_place_distinct:
  "distinct (map (\<lambda>r. next_cell gr ip (fst r)) rs) \<Longrightarrow>
   (\<forall>r\<in>set rs. next_cell gr ip (fst r) \<notin> fst ` set acc) \<Longrightarrow>
   fold (place_robot gr ip) rs acc = acc @ map (\<lambda>r. (next_cell gr ip (fst r), snd r)) rs"
proof (induction rs arbitrary: acc)
  case Nil
  show ?case by simp
next
  case (Cons r rs)
  have step: "place_robot gr ip r acc = acc @ [(next_cell gr ip (fst r), snd r)]"
    using Cons.prems(2) by (simp add: place_robot_def dict_set_fresh)
  have "\<forall>x\<in>set rs. next_cell gr ip (fst x) \<notin> fst ` set (acc @ [(next_cell gr ip (fst r), snd r)])"
  proof
    fix x assume x: "x \<in> set rs"
    from Cons.prems(1) have "next_cell gr ip (fst r) \<notin> (\<lambda>r. next_cell gr ip (fst r)) ` set rs"
      by simp
    with x have "next_cell gr ip (fst x) \<noteq> next_cell gr ip (fst r)"
      by (metis image_eqI)
    moreover from Cons.prems(2) x have "next_cell gr ip (fst x) \<notin> fst ` set acc" by simp
    ultimately show "next_cell gr ip (fst x) \<notin> fst ` set (acc @ [(next_cell gr ip (fst r), snd r)])"
      by simp
  qed
  with Cons.IH [of "acc @ [(next_cell gr ip (fst r), snd r)]"] Cons.prems(1) step
  show ?case by simp
qed

text \<open>
  C3, as the spec states it, fails on a tick that ends in a capture.  On the sample layout
  with four robots, the robot at (0, 0) has the two-cell path [(0, 0), (0, 1)] to the
  intruder at (0, 1), and after the tick the robot store is as before, with this robot
  still at (0, 0), since \<^verbatim>\<open>update_game\<close> returns from
  \<^verbatim>\<open>game_over()\<close> before \<^verbatim>\<open>self.robots = new_robots\<close>.
\<close>

theorem capture_tick_keeps_robots:
  "find_path sample_grid (0, 0) (0, 1) = Some (Inr (Some [(0, 0), (0, 1)])) \<and>
   map_option (map_sum id robots)
     (update_game binary64_ops (running_game [((0, 0), 1), ((2, 3), 2), ((5, 5), 3), ((7, 7), 4)] (0, 1) 7) 1000) =
     Some (Inr [((0, 0), 1), ((2, 3), 2), ((5, 5), 3), ((7, 7), 4)])"
  by code_simp

text \<open>
  C3, amended.  On a tick (game running, tick due) in which no robot's second path cell is
  the intruder's cell, the new robot store is built from the old one by putting each robot's
  number at its next cell, in the order of the old store; the next cell of a robot is a
  function of the grid, the intruder's cell and the robot's own cell before the tick: the
  second cell of its path when the path has at least two cells, its own cell when there is
  no path or a one-cell path.  When the next cells are pairwise distinct, every robot is at
  its next cell after the tick.  On a tick in which some robot's second path cell is the
  intruder's cell, \<open>update_game\<close> returns what \<open>game_over\<close> returns, and the robot store
  is left as it was (when the loaded scores are ill typed, \<open>game_over\<close> raises).
\<close>

theorem update_game_simultaneous:
  assumes "wf_grid (grid st)" "game_running st"
    and "tick_due fl (now - last_update st) (robot_speed st)" "intruder_pos st = Some ip"
  shows
    "((\<forall>r\<in>set (robots st). \<not> robot_captures (grid st) ip (fst r)) \<longrightarrow>
        update_game fl st now =
          Some (Inr (st\<lparr>robots := fold (place_robot (grid st) ip) (robots st) [],
                        last_update := now\<rparr>)) \<and>
        (distinct (map (\<lambda>r. next_cell (grid st) ip (fst r)) (robots st)) \<longrightarrow>
           fold (place_robot (grid st) ip) (robots st) [] =
             map (\<lambda>r. (next_cell (grid st) ip (fst r), snd r)) (robots st))) \<and>
     ((\<exists>r\<in>set (robots st). robot_captures (grid st) ip (fst r)) \<longrightarrow>
        update_game fl st now = Some (game_over st) \<and>
        (\<forall>st'. game_over st = Inr st' \<longrightarrow> robots st' = robots st) \<and>
        (scores_readable st \<longrightarrow>
           map_option (map_sum id robots) (update_game fl st now) = Some (Inr (robots st)))) \<and>
     (\<forall>pos p. find_path (grid st) pos ip = Some (Inr (Some p)) \<and> 2 \<le> length p \<longrightarrow>
        next_cell (grid st) ip pos = p ! 1) \<and>
     (\<forall>pos. find_path (grid st) pos ip = Some (Inr None) \<or>
        (\<exists>c. find_path (grid st) pos ip = Some (Inr (Some [c]))) \<longrightarrow>
        next_cell (grid st) ip pos = pos)"
proof -
  note tick = update_game_tick [OF assms]
  have a: "update_game fl st now =
          Some (Inr (st\<lparr>robots := fold (place_robot (grid st) ip) (robots st) [],
                        last_update := now\<rparr>))"
    if "\<forall>r\<in>set (robots st). \<not> robot_captures (grid st) ip (fst r)"
    using tick that by simp
  have b: "fold (place_robot (grid st) ip) (robots st) [] =
             map (\<lambda>r. (next_cell (grid st) ip (fst r), snd r)) (robots st)"
    if "distinct (map (\<lambda>r. next_cell (grid st) ip (fst r)) (robots st))"
    using fold_place_distinct [OF that, of "[]"] by simp
  have c: "update_game fl st now = Some (game_over st) \<and>
        (\<forall>st'. game_over st = Inr st' \<longrightarrow> robots st' = robots st) \<and>
        (scores_readable st \<longrightarrow>
           map_option (map_sum id robots) (update_game fl st now) = Some (Inr (robots st)))"
    if "\<exists>r\<in>set (robots st). robot_captures (grid st) ip (fst r)"
  proof -
    from tick that have u: "update_game fl st now = Some (game_over st)" by simp
    have k: "\<forall>st'. game_over st = Inr st' \<longrightarrow> robots st' = robots st"
      using game_over_keeps by blast
    have "map_option (map_sum id robots) (update_game fl st now) = Some (Inr (robots st))"
      if "scores_readable st"
    proof -
      from game_over_readable [OF that] obtain st' where "game_over st = Inr st'" by blast
      with u k show ?thesis by simp
    qed
    with u k show ?thesis by blast
  qed
  have d: "next_cell (grid st) ip pos = p ! 1"
    if "find_path (grid st) pos ip = Some (Inr (Some p)) \<and> 2 \<le> length p" for pos p
    using that by (simp add: next_cell_def)
  have e: "next_cell (grid st) ip pos = pos"
    if "find_path (grid st) pos ip = Some (Inr None) \<or>
        (\<exists>c. find_path (grid st) pos ip = Some (Inr (Some [c])))" for pos
    using that by (auto simp: next_cell_def)
  from a b c d e show ?thesis by blast
qed

lemma example_next_cells:
  "next_cell sample_grid (0, 3) (0, 0) = (0, 1)"
  "next_cell sample_grid (0, 3) (2, 3) = (1, 3)"
  "next_cell sample_grid (0, 3) (5, 5) = (4, 5)"
  "next_cell sample_grid (0, 3) (7, 7) = (6, 7)"
  "\<not> robot_captures sample_grid (0, 3) (0, 0)"
  "\<not> robot_captures sample_grid (0, 3) (2, 3)"
  "\<not> robot_captures sample_grid (0, 3) (5, 5)"
  "\<not> robot_captures sample_grid (0, 3) (7, 7)"
  by code_simp+

lemma tick_due_at_start: "tick_due binary64_ops 1000 1"
  by code_simp

lemma example_tick_facts:
  "wf_grid (grid (running_game rs ip n))"
  "game_running (running_game rs ip n)"
  "tick_due binary64_ops (1000 - last_update (running_game rs ip n)) (robot_speed (running_game rs ip n))"
  "intruder_pos (running_game rs ip n) = Some ip"
  "grid (running_game rs ip n) = sample_grid"
  "robots (running_game rs ip n) = rs"
  using wf_sample_grid tick_due_at_start by (simp_all add: running_game_def)

theorem update_game_simultaneous_witness:
  "wf_grid (grid (running_game [((0, 0), 1), ((2, 3), 2), ((5, 5), 3), ((7, 7), 4)] (0, 3) 7)) \<and>
   game_running (running_game [((0, 0), 1), ((2, 3), 2), ((5, 5), 3), ((7, 7), 4)] (0, 3) 7) \<and>
   intruder_pos (running_game [((0, 0), 1), ((2, 3), 2), ((5, 5), 3), ((7, 7), 4)] (0, 3) 7) = Some (0, 3) \<and>
   \<not> robot_captures sample_grid (0, 3) (0, 0) \<and> \<not> robot_captures sample_grid (0, 3) (2, 3) \<and>
   \<not> robot_captures sample_grid (0, 3) (5, 5) \<and> \<not> robot_captures sample_grid (0, 3) (7, 7) \<and>
   distinct (map (\<lambda>r. next_cell sample_grid (0, 3) (fst r)) [((0, 0), 1), ((2, 3), 2), ((5, 5), 3), ((7, 7), 4 :: int)]) \<and>
   update_game binary64_ops (running_game [((0, 0), 1), ((2, 3), 2), ((5, 5), 3), ((7, 7), 4)] (0, 3) 7) 1000 =
     Some (Inr ((running_game [((0, 0), 1), ((2, 3), 2), ((5, 5), 3), ((7, 7), 4)] (0, 3) 7)
       \<lparr>robots := [((0, 1), 1), ((1, 3), 2), ((4, 5), 3), ((6, 7), 4)], last_update := 1000\<rparr>))"
proof -
  let ?st = "running_game [((0, 0), 1), ((2, 3), 2), ((5, 5), 3), ((7, 7), 4)] (0, 3) 7"
  show ?thesis
    using update_game_simultaneous [OF example_tick_facts(1-4), of "[((0, 0), 1), ((2, 3), 2), ((5, 5), 3), ((7, 7), 4)]" "(0, 3)" 7]
      example_tick_facts [of "[((0, 0), 1), ((2, 3), 2), ((5, 5), 3), ((7, 7), 4)]" "(0, 3)" 7] example_next_cells
    by simp
qed

subsection \<open>Robots that compute the same cell\<close>

lemma dict_set_keys: "fst ` set (dict_set k v ps) = insert k (fst ` set ps)"
  by (induction ps) auto

lemma dict_set_distinct: "distinct (map fst ps) \<Longrightarrow> distinct (map fst (dict_set k v ps))"
proof (induction ps)
  case Nil
  show ?case by simp
next
  case (Cons p ps)
  show ?case
  proof (cases "fst p = k")
    case True
    with Cons.prems show ?thesis by simp
  next
    case False
    from Cons.prems have "fst p \<notin> fst ` set ps" "distinct (map fst ps)" by simp_all
    with False Cons.IH have "fst p \<notin> fst ` set (dict_set k v ps)" "distinct (map fst (dict_set k v ps))"
      by (simp_all add: dict_set_keys)
    with False show ?thesis by simp
  qed
qed

lemma fold_place_keys:
  "fst ` set (fold (place_robot gr ip) rs acc) =
     fst ` set acc \<union> (\<lambda>r. next_cell gr ip (fst r)) ` set rs"
proof (induction rs arbitrary: acc)
  case Nil
  show ?case by simp
next
  case (Cons r rs)
  have "fst ` set (place_robot gr ip r acc) = insert (next_cell gr ip (fst r)) (fst ` set acc)"
    by (simp add: place_robot_def dict_set_keys)
  with Cons.IH [of "place_robot gr ip r acc"] show ?case by simp
qed

lemma fold_place_distinct_keys:
  "distinct (map fst acc) \<Longrightarrow> distinct (map fst (fold (place_robot gr ip) rs acc))"
proof (induction rs arbitrary: acc)
  case Nil
  then show ?case by simp
next
  case (Cons r rs)
  from Cons.prems have "distinct (map fst (place_robot gr ip r acc))"
    by (simp add: place_robot_def dict_set_distinct)
  from Cons.IH [OF this] show ?case by simp
qed

text \<open>
  The new robot store has one entry for each cell that some robot computes, so it is as
  long as the old store exactly when the next cells are pairwise distinct, and shorter
  otherwise.
\<close>

lemma new_store_length:
  "length (fold (place_robot gr ip) rs []) = card ((\<lambda>r. next_cell gr ip (fst r)) ` set rs)"
proof -
  let ?new = "fold (place_robot gr ip) rs []"
  have "distinct (map fst ?new)" by (rule fold_place_distinct_keys) simp
  then have "card (set (map fst ?new)) = length (map fst ?new)" by (rule distinct_card)
  moreover have "set (map fst ?new) = (\<lambda>r. next_cell gr ip (fst r)) ` set rs"
    using fold_place_keys [of gr ip rs "[]"] by simp
  ultimately show ?thesis by simp
qed

lemma robots_preserved:
  assumes "wf_grid (grid st)" "game_running st"
    and "tick_due fl (now - last_update st) (robot_speed st)" "intruder_pos st = Some ip"
    and "\<forall>r\<in>set (robots st). \<not> robot_captures (grid st) ip (fst r)"
    and "distinct (map (\<lambda>r. next_cell (grid st) ip (fst r)) (robots st))"
  shows "\<exists>st'. update_game fl st now = Some (Inr st') \<and>
     map snd (robots st') = map snd (robots st) \<and> length (robots st') = length (robots st)"
proof -
  have "update_game fl st now =
      Some (Inr (st\<lparr>robots := fold (place_robot (grid st) ip) (robots st) [], last_update := now\<rparr>))"
    using update_game_tick [OF assms(1-4)] assms(5) by simp
  moreover have "fold (place_robot (grid st) ip) (robots st) [] =
      map (\<lambda>r. (next_cell (grid st) ip (fst r), snd r)) (robots st)"
    using fold_place_distinct [OF assms(6), of "[]"] by simp
  ultimately show ?thesis by (simp add: comp_def)
qed

lemma robots_lost:
  assumes "wf_grid (grid st)" "game_running st"
    and "tick_due fl (now - last_update st) (robot_speed st)" "intruder_pos st = Some ip"
    and "\<forall>r\<in>set (robots st). \<not> robot_captures (grid st) ip (fst r)"
    and "\<not> distinct (map (\<lambda>r. next_cell (grid st) ip (fst r)) (robots st))"
  shows "\<exists>st'. update_game fl st now = Some (Inr st') \<and> game_running st' \<and>
     length (robots st') < length (robots st)"
proof -
  let ?next = "map (\<lambda>r. next_cell (grid st) ip (fst r)) (robots st)"
  have u: "update_game fl st now =
      Some (Inr (st\<lparr>robots := fold (place_robot (grid st) ip) (robots st) [], last_update := now\<rparr>))"
    using update_game_tick [OF assms(1-4)] assms(5) by simp
  have "card (set ?next) \<noteq> length ?next" using assms(6) card_distinct by blast
  moreover have "card (set ?next) \<le> length ?next" by (rule card_length)
  ultimately have "card (set ?next) < length (robots st)" by simp
  then have "length (fold (place_robot (grid st) ip) (robots st) []) < length (robots st)"
    by (simp add: new_store_length)
  with u assms(2) show ?thesis by simp
qed

text \<open>
  C4.  The claim is that a tick without a capture keeps every robot, also when two robots
  compute the same next cell.  The code does not: the robot store is a dict keyed by cell,
  and \<^verbatim>\<open>new_robots[next_pos] = number\<close> overwrites the entry of a robot that went to the
  same cell before.  On the sample layout with the intruder at (0, 0), the robots 1 and 2
  at (0, 3) and (1, 2) both step to (0, 2); after the tick the game still runs and the
  store holds three entries, (0, 2) for robot 2 among them: robot 1 is gone.
\<close>

theorem robots_merge_on_same_cell:
  "next_cell sample_grid (0, 0) (0, 3) = (0, 2) \<and> next_cell sample_grid (0, 0) (1, 2) = (0, 2) \<and>
   map_option (map_sum id (\<lambda>s. (game_running s, robots s)))
     (update_game binary64_ops
        (running_game [((0, 3), 1), ((1, 2), 2), ((5, 5), 3), ((7, 7), 4)] (0, 0) 7) 1000) =
     Some (Inr (True, [((0, 2), 2), ((4, 5), 3), ((6, 7), 4)]))"
  by code_simp

section \<open>The capture\<close>

text \<open>
  What \<open>game_over\<close> does when the loaded scores are well typed: the game no longer runs
  and the status is \<^verbatim>\<open>"gameover"\<close>; the high score becomes the step count exactly when
  the step count exceeds it, and is then written to its file; the leaderboard is the stored
  list with the step count appended, sorted descending and cut to its first 5 entries, and
  is written to its file.  A write happens when the disk takes it.
\<close>

lemma game_over_fields:
  assumes "high_score st = Number h" "leaderboard_file st = stored"
    and "xs = (case stored of None \<Rightarrow> [] | Some (ScoreList ys) \<Rightarrow> ys | Some _ \<Rightarrow> [])"
    and "stored \<noteq> Some NotAList" "stored \<noteq> Some UnorderedList"
  shows "\<exists>st'. game_over st = Inr st' \<and> \<not> game_running st' \<and> game_status st' = ''gameover'' \<and>
     steps st' = steps st \<and> robots st' = robots st \<and>
     high_score st' = Number (if of_int (steps st) > h then of_int (steps st) else h) \<and>
     high_score_file st' =
       (if of_int (steps st) > h \<and> disk_writable st then Some (Number (of_int (steps st)))
        else high_score_file st) \<and>
     leaderboard st' = ScoreList (take 5 (sort_reverse (xs @ [of_int (steps st)]))) \<and>
     leaderboard_file st' =
       (if disk_writable st then Some (ScoreList (take 5 (sort_reverse (xs @ [of_int (steps st)]))))
        else stored)"
  using assms
  by (auto simp: game_over_def update_high_score_def save_high_score_def update_leaderboard_def
      save_leaderboard_def load_leaderboard_def Let_def split: option.splits json_scores.splits)

text \<open>
  On a tick (game running, tick due) in which some robot has a path of at least two cells
  whose second cell is the intruder's cell, \<open>update_game\<close> returns what \<open>game_over\<close>
  returns.
\<close>

lemma capture_game_over:
  assumes "wf_grid (grid st)" "game_running st"
    and "tick_due fl (now - last_update st) (robot_speed st)" "intruder_pos st = Some ip"
    and "r \<in> set (robots st)" "find_path (grid st) (fst r) ip = Some (Inr (Some p))"
    and "2 \<le> length p" "p ! 1 = ip"
  shows "update_game fl st now = Some (game_over st)"
proof -
  have "robot_captures (grid st) ip (fst r)"
    using assms(6-8) by (simp add: robot_captures_def)
  with assms(5) have "\<exists>r\<in>set (robots st). robot_captures (grid st) ip (fst r)" by blast
  with update_game_tick [OF assms(1-4)] show ?thesis by simp
qed

text \<open>
  A capture on the sample layout with 7 steps, a high score of 3 and the stored leaderboard
  [9, 4]: the high score becomes 7 and the stored leaderboard [9, 7, 4].
\<close>

lemma capture_example:
  "map_option (map_sum id
      (\<lambda>s. (game_running s, game_status s, high_score s, high_score_file s, leaderboard s,
             leaderboard_file s)))
     (update_game binary64_ops
        ((running_game [((0, 0), 1), ((2, 3), 2), ((5, 5), 3), ((7, 7), 4)] (0, 1) 7)
           \<lparr>leaderboard_file := Some (ScoreList [9, 4])\<rparr>) 1000) =
   Some (Inr (False, ''gameover'', Number 7, Some (Number 7), ScoreList [9, 7, 4],
              Some (ScoreList [9, 7, 4])))"
  by code_simp

subsection \<open>A robot on the intruder's cell\<close>

lemma find_path_same_cell: "find_path gr c c = Some (Inr (Some [c]))"
  by (simp add: find_path_def astar_init_def astar_loop.simps heappush_def heappop_def
      heap_least_def reconstruct.simps)

text \<open>
  A robot that stands on the intruder's cell has the one-cell path: its next cell is its
  own cell, which is the intruder's cell, and the test for a capture is not made for it.
\<close>

lemma robot_on_intruder: "next_cell gr c c = c \<and> \<not> robot_captures gr c c"
proof -
  have "next_cell gr c c = c"
    unfolding next_cell_def by (simp only: find_path_same_cell option.case sum.case) simp
  moreover have "\<not> robot_captures gr c c"
    unfolding robot_captures_def by (simp only: find_path_same_cell option.case sum.case) simp
  ultimately show ?thesis by simp
qed

text \<open>
  C5.  The claim is that a tick in which some robot's computed next cell is the intruder's
  cell ends the game.  The code tests \<^verbatim>\<open>next_pos == self.intruder_pos\<close> only for a robot
  that moves; a robot that keeps its cell is not tested.  The player's move is checked
  against obstacles only, so the intruder can step onto a robot: on the sample layout, with
  robot 1 at (0, 1), the key \<^verbatim>\<open>K_RIGHT\<close> takes the intruder from (0, 0) to (0, 1).  On the
  next tick robot 1 has the one-cell path, its next cell (0, 1) is the intruder's cell, and
  the game goes on running with robot 1 and the intruder in one cell.
\<close>

theorem robot_on_intruder_no_capture:
  "handle_keydown binary64_ops
     (running_game [((0, 1), 1), ((2, 3), 2), ((5, 5), 3), ((7, 7), 4)] (0, 0) 6) K_RIGHT =
     Inr (running_game [((0, 1), 1), ((2, 3), 2), ((5, 5), 3), ((7, 7), 4)] (0, 1) 7) \<and>
   find_path sample_grid (0, 1) (0, 1) = Some (Inr (Some [(0, 1)])) \<and>
   next_cell sample_grid (0, 1) (0, 1) = (0, 1) \<and>
   map_option (map_sum id (\<lambda>s. (game_running s, game_status s, intruder_pos s, robots s)))
     (update_game binary64_ops
        (running_game [((0, 1), 1), ((2, 3), 2), ((5, 5), 3), ((7, 7), 4)] (0, 1) 7) 1000) =
     Some (Inr (True, ''running'', Some (0, 1),
                [((0, 1), 1), ((1, 3), 2), ((4, 5), 3), ((6, 7), 4)]))"
  by code_simp

section \<open>The speed ramp\<close>

text \<open>
  An accepted move (an arrow key, pressed while the game runs, whose target cell is in
  bounds and free) adds one step and applies the speed increase when the new step count is
  a positive multiple of 100.
\<close>

lemma accepted_move_effect:
  assumes "accepted_move st k"
  shows "\<exists>pos target. intruder_pos st = Some pos \<and> move_target k pos = Some target \<and>
     handle_keydown fl st k =
       Inr (st\<lparr>intruder_pos := Some target, steps := steps st + 1,
              robot_speed := (if 0 < steps st + 1 \<and> (steps st + 1) mod 100 = 0
                              then speed_increase fl (robot_speed st) else robot_speed st)\<rparr>)"
proof -
  from assms obtain pos target where
    h: "game_running st" "intruder_pos st = Some pos" "move_target k pos = Some target"
    "free_cell (grid st) target"
    by (auto simp: accepted_move_def split: option.splits)
  from h(3) have "handle_keydown fl st k =
       Inr (st\<lparr>intruder_pos := Some target, steps := steps st + 1,
              robot_speed := (if 0 < steps st + 1 \<and> (steps st + 1) mod 100 = 0
                              then speed_increase fl (robot_speed st) else robot_speed st)\<rparr>)"
    using h(1,2,4)
    by (cases k)
      (auto simp: handle_keydown_def move_target_def free_cell_def Let_def
        ROBOT_SPEED_INCREASE_STEPS_def)
  with h show ?thesis by blast
qed

text \<open>The number of increases so far, \<open>steps div 100\<close>, along one more step.\<close>

lemma ramp_step:
  assumes "0 \<le> (s::int)"
  shows "(s + 1) mod 100 = 0 \<Longrightarrow> nat ((s + 1) div 100) = Suc (nat (s div 100))"
    and "(s + 1) mod 100 \<noteq> 0 \<Longrightarrow> nat ((s + 1) div 100) = nat (s div 100)"
proof -
  define m where "m = s mod 100"
  define q where "q = s div 100"
  have s: "s = 100 * q + m" and m: "0 \<le> m" "m < 100" and q: "0 \<le> q"
    using assms by (simp_all add: m_def q_def)
  show "nat ((s + 1) div 100) = Suc (nat (s div 100))" if h: "(s + 1) mod 100 = 0"
  proof -
    have "m = 99"
    proof (rule ccontr)
      assume "m \<noteq> 99"
      with m have "0 \<le> m + 1" "m + 1 < 100" by simp_all
      then have "(m + 1) mod 100 = m + 1" by (rule mod_pos_pos_trivial)
      moreover have "(s + 1) mod 100 = (m + 1) mod 100"
        unfolding s by (simp add: add.assoc)
      ultimately show False using h m by simp
    qed
    with s have "s + 1 = 100 * (q + 1)" by simp
    then have "(s + 1) div 100 = q + 1" by simp
    with q show ?thesis by (simp add: q_def [symmetric] nat_add_distrib)
  qed
  show "nat ((s + 1) div 100) = nat (s div 100)" if h: "(s + 1) mod 100 \<noteq> 0"
  proof -
    have "m \<noteq> 99"
    proof
      assume "m = 99"
      with s have "s + 1 = 100 * (q + 1)" by simp
      then have "(s + 1) mod 100 = 0" by simp
      with h show False by simp
    qed
    with m have b: "0 \<le> m + 1" "m + 1 < 100" by simp_all
    have "(s + 1) div 100 = (100 * q + (m + 1)) div 100" unfolding s by (simp add: add.assoc)
    also have "\<dots> = q + (m + 1) div 100" by simp
    also have "(m + 1) div 100 = 0" using b by (rule div_pos_pos_trivial)
    finally show ?thesis by (simp add: q_def)
  qed
qed

text \<open>
  Along a run of accepted moves, the speed stays the initial speed with the increase
  applied \<open>steps div 100\<close> times.
\<close>

lemma speed_after_accepted_run:
  assumes "accepted_run fl st ks" "0 \<le> steps st"
    and "robot_speed st = (speed_increase fl ^^ nat (steps st div 100)) (ROBOT_SPEED_INITIAL fl)"
  shows "\<exists>st'. key_events fl st ks = Inr st' \<and> steps st' = steps st + int (length ks) \<and>
     robot_speed st' = (speed_increase fl ^^ nat (steps st' div 100)) (ROBOT_SPEED_INITIAL fl)"
  using assms
proof (induction ks arbitrary: st)
  case Nil
  then show ?case by simp
next
  case (Cons k ks)
  from Cons.prems(1) have acc: "accepted_move st k" by simp
  from accepted_move_effect [OF acc, of fl] obtain target where
    hk: "handle_keydown fl st k =
       Inr (st\<lparr>intruder_pos := Some target, steps := steps st + 1,
              robot_speed := (if 0 < steps st + 1 \<and> (steps st + 1) mod 100 = 0
                              then speed_increase fl (robot_speed st) else robot_speed st)\<rparr>)"
    by blast
  define st1 where "st1 = st\<lparr>intruder_pos := Some target, steps := steps st + 1,
              robot_speed := (if 0 < steps st + 1 \<and> (steps st + 1) mod 100 = 0
                              then speed_increase fl (robot_speed st) else robot_speed st)\<rparr>"
  have s1: "steps st1 = steps st + 1" "0 \<le> steps st1"
    using Cons.prems(2) by (simp_all add: st1_def)
  have r1: "robot_speed st1 = (speed_increase fl ^^ nat (steps st1 div 100)) (ROBOT_SPEED_INITIAL fl)"
  proof (cases "(steps st + 1) mod 100 = 0")
    case True
    with Cons.prems(2) have "robot_speed st1 = speed_increase fl (robot_speed st)"
      by (simp add: st1_def)
    with ramp_step(1) [OF Cons.prems(2) True] Cons.prems(3) s1 show ?thesis by simp
  next
    case False
    then have "robot_speed st1 = robot_speed st" by (simp add: st1_def)
    with ramp_step(2) [OF Cons.prems(2) False] Cons.prems(3) s1 show ?thesis by simp
  qed
  from Cons.prems(1) hk have a1: "accepted_run fl st1 ks" by (simp add: st1_def)
  from Cons.IH [OF a1 s1(2) r1] obtain st' where
    "key_events fl st1 ks = Inr st'" "steps st' = steps st1 + int (length ks)"
    "robot_speed st' = (speed_increase fl ^^ nat (steps st' div 100)) (ROBOT_SPEED_INITIAL fl)"
    by blast
  with hk s1 show ?case by (simp add: st1_def)
qed

text \<open>
  A fresh start is a state with no steps and the initial speed: \<^verbatim>\<open>__init__\<close>,
  \<^verbatim>\<open>clear_grid\<close> and \<^verbatim>\<open>start_game\<close> (with the intruder placed) leave such a state.  The
  ticks between the moves change neither the step count nor the speed.
\<close>

lemma fresh_start:
  "steps (clear_grid fl st) = 0 \<and> robot_speed (clear_grid fl st) = ROBOT_SPEED_INITIAL fl"
  "intruder_pos st \<noteq> None \<Longrightarrow>
     steps (start_game fl st) = 0 \<and> robot_speed (start_game fl st) = ROBOT_SPEED_INITIAL fl \<and>
     game_running (start_game fl st)"
  by (auto simp: clear_grid_def start_game_def)

lemma game_over_keeps_speed:
  assumes "game_over st = Inr st'"
  shows "steps st' = steps st \<and> robot_speed st' = robot_speed st"
  using assms
  by (auto simp: game_over_def update_high_score_def save_high_score_def update_leaderboard_def
      save_leaderboard_def Let_def split: json_score.splits json_scores.splits if_splits)

lemma update_game_keeps_speed:
  assumes "update_game fl st now = Some (Inr st')"
  shows "steps st' = steps st \<and> robot_speed st' = robot_speed st"
  using assms
  by (auto simp: update_game_def dest: game_over_keeps_speed
      split: if_splits option.splits sum.splits)

lemma exact_ramp: "(speed_increase exact_ops ^^ k) 1 = 1 + of_nat k / 10"
  by (induction k) (simp_all add: exact_ops_def add_divide_distrib)

lemma binary64_increase_once:
  "speed_increase binary64_ops 1 = 2476979795053773 / 2251799813685248"
  by code_simp

lemma binary64_increase_twice:
  "speed_increase binary64_ops (2476979795053773 / 2251799813685248) =
     1351079888211149 / 1125899906842624"
  by code_simp

lemma binary64_literals:
  "round64 (11 / 10) = 2476979795053773 / 2251799813685248 \<and>
   round64 (12 / 10) = 5404319552844595 / 4503599627370496"
  by code_simp

text \<open>
  C6, as the spec states it, fails at its own second figure.  After the button "Start Game"
  on the sample layout with the intruder at (0, 1), the 250 keys RIGHT, LEFT, RIGHT, LEFT,
  ... are 250 accepted moves.  The speed is then the float 1.0 + 0.1 + 0.1, which is
  1.2000000000000002: one unit in the last place above the float 1.2, which is the value
  of the literal \<^verbatim>\<open>1.2\<close> and also of \<^verbatim>\<open>1.0 + 0.1 * 2\<close>.
\<close>

theorem speed_after_250_moves:
  "accepted_run binary64_ops (start_game binary64_ops finished_game)
     (concat (replicate 125 [K_RIGHT, K_LEFT])) \<and>
   map_sum id (\<lambda>s. (steps s, robot_speed s))
     (key_events binary64_ops (start_game binary64_ops finished_game)
        (concat (replicate 125 [K_RIGHT, K_LEFT]))) =
     Inr (250, 1351079888211149 / 1125899906842624) \<and>
   round64 (12 / 10) = 5404319552844595 / 4503599627370496 \<and>
   round64 (1 + round64 (round64 (1 / 10) * 2)) = 5404319552844595 / 4503599627370496 \<and>
   1351079888211149 / 1125899906842624 - 5404319552844595 / 4503599627370496 =
     (1 / 2 ^ 52 :: rat)"
  by code_simp

text \<open>
  C6, amended.  From a fresh start (no steps, the initial speed) a run of \<open>n\<close> accepted
  moves is carried out without an exception, leaves the step count at \<open>n\<close>, and leaves the
  speed at the initial speed with \<^verbatim>\<open>robot_speed += ROBOT_SPEED_INCREASE\<close> applied
  \<open>n div 100\<close> times.  In Python's float arithmetic one application gives the float 1.1
  (so the speed is 1.1 after exactly 100 accepted moves) and two applications give
  1.2000000000000002, the float 1.2 plus \<open>2 ^ -52\<close> (the speed after 250 accepted moves).
  In exact arithmetic \<open>k\<close> applications give \<open>1 + k / 10\<close>.
\<close>

theorem speed_progression:
  assumes "steps st = 0" "robot_speed st = ROBOT_SPEED_INITIAL fl" "accepted_run fl st ks"
  shows "(\<exists>st'. key_events fl st ks = Inr st' \<and> steps st' = int (length ks) \<and>
       robot_speed st' = (speed_increase fl ^^ (length ks div 100)) (ROBOT_SPEED_INITIAL fl)) \<and>
     ROBOT_SPEED_INITIAL binary64_ops = 1 \<and>
     (speed_increase binary64_ops ^^ 1) 1 = round64 (11 / 10) \<and>
     (speed_increase binary64_ops ^^ 2) 1 = round64 (12 / 10) + 1 / 2 ^ 52 \<and>
     ROBOT_SPEED_INITIAL exact_ops = 1 \<and>
     (\<forall>k. (speed_increase exact_ops ^^ k) 1 = 1 + of_nat k / 10)"
proof -
  from assms(1,2) have "0 \<le> steps st"
    "robot_speed st = (speed_increase fl ^^ nat (steps st div 100)) (ROBOT_SPEED_INITIAL fl)"
    by simp_all
  from speed_after_accepted_run [OF assms(3) this] obtain st' where
    s: "key_events fl st ks = Inr st'" "steps st' = steps st + int (length ks)"
    "robot_speed st' = (speed_increase fl ^^ nat (steps st' div 100)) (ROBOT_SPEED_INITIAL fl)"
    by blast
  have "nat (int (length ks) div 100) = length ks div 100"
    by (simp add: nat_div_distrib)
  with s assms(1) have a: "\<exists>st'. key_events fl st ks = Inr st' \<and> steps st' = int (length ks) \<and>
       robot_speed st' = (speed_increase fl ^^ (length ks div 100)) (ROBOT_SPEED_INITIAL fl)"
    by simp
  have b: "(speed_increase binary64_ops ^^ 1) 1 = round64 (11 / 10)"
    using binary64_increase_once binary64_literals by simp
  have "(speed_increase binary64_ops ^^ 2) 1 =
      speed_increase binary64_ops (speed_increase binary64_ops 1)"
    by (simp add: numeral_2_eq_2)
  also have "\<dots> = 1351079888211149 / 1125899906842624"
    by (simp only: binary64_increase_once binary64_increase_twice)
  also have "\<dots> = round64 (12 / 10) + 1 / 2 ^ 52"
    using binary64_literals by simp
  finally have c: "(speed_increase binary64_ops ^^ 2) 1 = round64 (12 / 10) + 1 / 2 ^ 52" .
  have d: "ROBOT_SPEED_INITIAL binary64_ops = 1" "ROBOT_SPEED_INITIAL exact_ops = 1"
    by (simp_all add: binary64_ops_def exact_ops_def)
  from a b c d exact_ramp show ?thesis by blast
qed

theorem speed_progression_witness:
  "steps (start_game binary64_ops finished_game) = 0 \<and>
   robot_speed (start_game binary64_ops finished_game) = 1 \<and>
   accepted_run binary64_ops (start_game binary64_ops finished_game)
     (concat (replicate 50 [K_RIGHT, K_LEFT])) \<and>
   length (concat (replicate 50 [K_RIGHT, K_LEFT])) = 100 \<and>
   map_sum id (\<lambda>s. (steps s, robot_speed s))
     (key_events binary64_ops (start_game binary64_ops finished_game)
        (concat (replicate 50 [K_RIGHT, K_LEFT]))) =
     Inr (100, round64 (11 / 10)) \<and>
   round64 (11 / 10) = 2476979795053773 / 2251799813685248"
proof -
  let ?ks = "concat (replicate 50 [K_RIGHT, K_LEFT])"
  have i: "steps (start_game binary64_ops finished_game) = 0"
    "robot_speed (start_game binary64_ops finished_game) = 1"
    "ROBOT_SPEED_INITIAL binary64_ops = 1"
    by code_simp+
  then have i': "robot_speed (start_game binary64_ops finished_game) =
      ROBOT_SPEED_INITIAL binary64_ops"
    by simp
  have r: "accepted_run binary64_ops (start_game binary64_ops finished_game) ?ks" by code_simp
  have l: "length ?ks = 100" by code_simp
  from speed_progression [OF i(1) i' r] obtain st' where
    s: "key_events binary64_ops (start_game binary64_ops finished_game) ?ks = Inr st'"
    "steps st' = int (length ?ks)"
    "robot_speed st' =
       (speed_increase binary64_ops ^^ (length ?ks div 100)) (ROBOT_SPEED_INITIAL binary64_ops)"
    and o: "ROBOT_SPEED_INITIAL binary64_ops = 1"
      "(speed_increase binary64_ops ^^ 1) 1 = round64 (11 / 10)"
    by blast
  from s(3) have "robot_speed st' = round64 (11 / 10)"
    unfolding l o(1) using o(2) by simp
  moreover from s(2) have "steps st' = 100" unfolding l by simp
  moreover have "round64 (11 / 10) = 2476979795053773 / 2251799813685248"
    by code_simp
  ultimately show ?thesis using i r l s(1) by simp
qed

end
